theory Spec2Isabelle
  imports Main "HOL-Library.Sublist" "HOL-Library.AList" "HOL-Library.Multiset"
begin

section \<open>Strings, characters and Python string primitives\<close>

text \<open>
  Python strings are modelled as \<^typ>\<open>string\<close>. The model covers ASCII text, where the
  Unicode classes \<open>\d\<close>, \<open>\w\<close> and \<open>str.isspace\<close> of Python coincide with the
  character sets below.
\<close>

datatype py_error = AttributeError | TypeError | ValueError

definition is_digit :: "char \<Rightarrow> bool" where
  "is_digit c = (c \<in> set ''0123456789'')"

definition is_word :: "char \<Rightarrow> bool" where
  "is_word c =
     (c \<in> set ''abcdefghijklmnopqrstuvwxyzABCDEFGHIJKLMNOPQRSTUVWXYZ0123456789_'')"

definition is_space :: "char \<Rightarrow> bool" where
  "is_space c = (c \<in> set [CHR '' '', CHR 0x09, CHR 0x0A, CHR 0x0B, CHR 0x0C, CHR 0x0D,
                            CHR 0x1C, CHR 0x1D, CHR 0x1E, CHR 0x1F])"

text \<open>\<open>str(n)\<close> for a non-negative integer, as the f-string renders the counter.\<close>

definition digit_char :: "nat \<Rightarrow> char" where
  "digit_char d = ''0123456789'' ! d"

fun str_of_nat :: "nat \<Rightarrow> string" where
  "str_of_nat n = (if n < 10 then [digit_char n]
                   else str_of_nat (n div 10) @ [digit_char (n mod 10)])"

declare str_of_nat.simps [simp del]

text \<open>\<open>int(s)\<close> on a string of decimal digits.\<close>

definition digit_val :: "char \<Rightarrow> nat" where
  "digit_val c = of_char c - 48"

definition int_of_digits :: "string \<Rightarrow> nat" where
  "int_of_digits ds = foldl (\<lambda>a c. 10 * a + digit_val c) 0 ds"

text \<open>
  \<open>text.replace(old, new)\<close>: the non-overlapping occurrences of \<open>old\<close> are replaced from
  left to right; an empty \<open>old\<close> matches before every character and at the end.
\<close>

function str_replace :: "string \<Rightarrow> string \<Rightarrow> string \<Rightarrow> string" where
  "str_replace [] old new = (if old = [] then new else [])"
| "str_replace (c # cs) old new =
     (if old = [] then new @ c # str_replace cs old new
      else if prefix old (c # cs) then new @ str_replace (drop (length old) (c # cs)) old new
      else c # str_replace cs old new)"
  by pat_completeness auto
termination
  by (relation "measure (\<lambda>(s, old, new). length s)") auto

text \<open>\<open>s.strip()\<close>: leading and trailing whitespace removed.\<close>

definition strip :: "string \<Rightarrow> string" where
  "strip s = rev (dropWhile is_space (rev (dropWhile is_space s)))"

section \<open>TagExtractor: \<open>extract_html_tags\<close> and \<open>restore_img_tags\<close>\<close>

text \<open>
  The pattern is \<open><[^>]+>|\n|\"|\b\d+\|\|\|\d+\b|\b\d+\|\|\|\d+\w*\<close>.
  Each alternative is a function from the text at the current position (and the character
  before it, for \<open>\b\<close>) to the matched span and the text after it.
\<close>

definition word_boundary :: "char option \<Rightarrow> string \<Rightarrow> bool" where
  "word_boundary prev s =
     ((case prev of None \<Rightarrow> False | Some p \<Rightarrow> is_word p)
        \<noteq> (case s of [] \<Rightarrow> False | c # _ \<Rightarrow> is_word c))"

text \<open>\<open><[^>]+>\<close>: the class \<open>[^>]\<close> also takes newlines and \<open><\<close>.\<close>

definition match_bracket :: "string \<Rightarrow> (string \<times> string) option" where
  "match_bracket s =
     (case s of [] \<Rightarrow> None
      | c # cs \<Rightarrow>
          if c \<noteq> CHR ''<'' then None
          else let body = takeWhile (\<lambda>x. x \<noteq> CHR ''>'') cs;
                   r = dropWhile (\<lambda>x. x \<noteq> CHR ''>'') cs
               in if body = [] \<or> r = [] then None
                  else Some (c # body @ [CHR ''>''], tl r))"

definition match_char :: "char \<Rightarrow> string \<Rightarrow> (string \<times> string) option" where
  "match_char x s = (case s of [] \<Rightarrow> None | c # cs \<Rightarrow> if c = x then Some ([c], cs) else None)"

text \<open>
  \<open>\b\d+\|\|\|\d+\<close>, the common prefix of the last two alternatives. Both \<open>\d+\<close> are
  greedy; giving back digits never helps, since the next pattern element (\<open>|\<close>, or \<open>\b\<close>
  between two digits) cannot match a digit position.
\<close>

definition match_pair_prefix :: "char option \<Rightarrow> string \<Rightarrow> (string \<times> string) option" where
  "match_pair_prefix prev s =
     (if \<not> word_boundary prev s then None
      else let d1 = takeWhile is_digit s; r1 = dropWhile is_digit s
           in if d1 = [] \<or> \<not> prefix ''|||'' r1 then None
              else let r2 = drop 3 r1; d2 = takeWhile is_digit r2; r3 = dropWhile is_digit r2
                   in if d2 = [] then None else Some (d1 @ ''|||'' @ d2, r3))"

text \<open>\<open>\b\d+\|\|\|\d+\b\<close>\<close>

definition match_pair_b :: "char option \<Rightarrow> string \<Rightarrow> (string \<times> string) option" where
  "match_pair_b prev s =
     (case match_pair_prefix prev s of None \<Rightarrow> None
      | Some (m, r) \<Rightarrow> if word_boundary (Some (last m)) r then Some (m, r) else None)"

text \<open>\<open>\b\d+\|\|\|\d+\w*\<close>\<close>

definition match_pair_w :: "char option \<Rightarrow> string \<Rightarrow> (string \<times> string) option" where
  "match_pair_w prev s =
     (case match_pair_prefix prev s of None \<Rightarrow> None
      | Some (m, r) \<Rightarrow> Some (m @ takeWhile is_word r, dropWhile is_word r))"

text \<open>The alternation tries its branches in order and keeps the first that matches.\<close>

definition orelse :: "'a option \<Rightarrow> 'a option \<Rightarrow> 'a option" where
  "orelse a b = (case a of None \<Rightarrow> b | Some x \<Rightarrow> Some x)"

definition match_pattern :: "char option \<Rightarrow> string \<Rightarrow> (string \<times> string) option" where
  "match_pattern prev s =
     orelse (match_bracket s)
       (orelse (match_char (CHR 0x0A) s)
         (orelse (match_char (CHR 0x22) s)
           (orelse (match_pair_b prev s) (match_pair_w prev s))))"

text \<open>The closure \<open>replacement\<close>: its state is \<open>tag_dict\<close> (in insertion order) and
  \<open>tag_id_counter\<close>.\<close>

type_synonym tag_dict = "(string \<times> string) list"

definition placeholder :: "nat \<Rightarrow> string" where
  "placeholder n = ''{{tag_'' @ str_of_nat n @ ''}}''"

definition replacement :: "string \<Rightarrow> tag_dict \<times> nat \<Rightarrow> string \<times> (tag_dict \<times> nat)" where
  "replacement tag st =
     (case st of (tag_dict, tag_id_counter) \<Rightarrow>
        if tag \<notin> set (map snd tag_dict)
        then let tag_id = placeholder tag_id_counter
             in (tag_id, (AList.update tag_id tag tag_dict, tag_id_counter + 1))
        else (case find (\<lambda>(existing_id, existing_tag). existing_tag = tag) tag_dict of
                Some (existing_id, existing_tag) \<Rightarrow> (existing_id, st)
              | None \<Rightarrow> ([], st)))"

lemma match_bracket_shorter: "match_bracket s = Some (m, r) \<Longrightarrow> length r < length s"
proof -
  have "length (dropWhile P xs) \<le> length xs" for P and xs :: string
    by (induction xs) auto
  then have "length (tl (dropWhile P xs)) \<le> length xs" for P and xs :: string
    by (metis diff_le_self length_tl order_trans)
  then show "match_bracket s = Some (m, r) \<Longrightarrow> length r < length s"
    by (auto simp: match_bracket_def Let_def le_imp_less_Suc split: list.splits if_splits)
qed

lemma match_char_shorter: "match_char x s = Some (m, r) \<Longrightarrow> length r < length s"
  by (auto simp: match_char_def split: list.splits if_splits)

lemma match_pair_prefix_shorter:
  "match_pair_prefix prev s = Some (m, r) \<Longrightarrow> length r < length s"
proof -
  assume a: "match_pair_prefix prev s = Some (m, r)"
  have dw: "length (dropWhile P xs) \<le> length xs" for P and xs :: string
    by (induction xs) auto
  from a have d1: "takeWhile is_digit s \<noteq> []"
    by (auto simp: match_pair_prefix_def Let_def split: if_splits)
  then have "length (dropWhile is_digit s) < length s"
    by (cases s) (auto simp: le_imp_less_Suc dw split: if_splits)
  moreover from a have "r = dropWhile is_digit (drop 3 (dropWhile is_digit s))"
    by (auto simp: match_pair_prefix_def Let_def split: if_splits)
  moreover have "length (dropWhile is_digit (drop 3 (dropWhile is_digit s)))
                   \<le> length (dropWhile is_digit s)"
    using dw [of is_digit "drop 3 (dropWhile is_digit s)"] by simp
  ultimately show ?thesis by simp
qed

lemma match_pattern_shorter: "match_pattern prev s = Some (m, r) \<Longrightarrow> length r < length s"
proof -
  assume a: "match_pattern prev s = Some (m, r)"
  have dw: "length (dropWhile P xs) \<le> length xs" for P and xs :: string
    by (induction xs) auto
  from a consider "match_bracket s = Some (m, r)" | "match_char (CHR 0x0A) s = Some (m, r)"
    | "match_char (CHR 0x22) s = Some (m, r)" | "match_pair_b prev s = Some (m, r)"
    | "match_pair_w prev s = Some (m, r)"
    by (auto simp: match_pattern_def orelse_def split: option.splits)
  then show ?thesis
  proof cases
    case 1 then show ?thesis by (rule match_bracket_shorter)
  next
    case 2 then show ?thesis by (rule match_char_shorter)
  next
    case 3 then show ?thesis by (rule match_char_shorter)
  next
    case 4
    then have "match_pair_prefix prev s = Some (m, r)"
      by (auto simp: match_pair_b_def split: option.splits if_splits)
    then show ?thesis by (rule match_pair_prefix_shorter)
  next
    case 5
    then obtain m' r' where p: "match_pair_prefix prev s = Some (m', r')"
      and r: "r = dropWhile is_word r'"
      by (auto simp: match_pair_w_def split: option.splits)
    from match_pair_prefix_shorter [OF p] dw [of is_word r'] r show ?thesis by simp
  qed
qed

text \<open>
  \<open>re.sub(pattern, replacement, text)\<close>: scan from the left; at a position where the pattern
  matches, emit the replacement and continue after the match, otherwise copy the character.
  \<open>prev\<close> is the character of the original text before the current position.
\<close>

function re_sub :: "char option \<Rightarrow> string \<Rightarrow> tag_dict \<times> nat \<Rightarrow> string \<times> (tag_dict \<times> nat)" where
  "re_sub prev [] st = ([], st)"
| "re_sub prev (c # cs) st =
     (case match_pattern prev (c # cs) of
        Some (m, r) \<Rightarrow>
          (case replacement m st of (rep, st') \<Rightarrow>
             (case re_sub (Some (last m)) r st' of (out, st'') \<Rightarrow> (rep @ out, st'')))
      | None \<Rightarrow> (case re_sub (Some c) cs st of (out, st') \<Rightarrow> (c # out, st')))"
  by pat_completeness auto
termination
  by (relation "measure (\<lambda>(prev, s, st). length s)") (auto dest: match_pattern_shorter)

definition extract_html_tags :: "string \<Rightarrow> string \<times> tag_dict" where
  "extract_html_tags text = (case re_sub None text ([], 1) of (out, (tag_dict, n)) \<Rightarrow> (out, tag_dict))"

text \<open>
  \<open>restore_img_tags\<close>: the entries are sorted (stably) by the first run of digits in the
  key; a key without a digit makes \<open>re.search\<close> return \<open>None\<close> and \<open>.group()\<close> raise.
\<close>

definition first_int :: "string \<Rightarrow> nat option" where
  "first_int s =
     (let ds = takeWhile is_digit (dropWhile (\<lambda>c. \<not> is_digit c) s)
      in if ds = [] then None else Some (int_of_digits ds))"

definition restore_img_tags :: "string \<Rightarrow> tag_dict \<Rightarrow> py_error + string" where
  "restore_img_tags text tag_dict =
     (if list_ex (\<lambda>(tag_id, tag). first_int tag_id = None) tag_dict then Inl AttributeError
      else Inr (fold (\<lambda>(tag_id, tag) t. str_replace t tag_id tag)
                  (sort_key (\<lambda>(tag_id, tag). the (first_int tag_id)) tag_dict) text))"

section \<open>Chunker: \<open>split_text_into_chunks_with_tags\<close>\<close>

text \<open>
  The capture pattern of \<open>re.split\<close> is \<open>(\{\{tag_\d+\}\})\<close>. The greedy \<open>\d+\<close> must be
  followed by \<open>}}\<close>; giving back digits leaves a digit where \<open>}\<close> is required.
\<close>

definition match_placeholder :: "string \<Rightarrow> (string \<times> string) option" where
  "match_placeholder s =
     (if \<not> prefix ''{{tag_'' s then None
      else let r = drop 6 s; ds = takeWhile is_digit r; r' = dropWhile is_digit r
           in if ds = [] \<or> \<not> prefix ''}}'' r' then None
              else Some (''{{tag_'' @ ds @ ''}}'', drop 2 r'))"

lemma match_placeholder_shorter: "match_placeholder s = Some (m, r) \<Longrightarrow> length r < length s"
proof -
  assume a: "match_placeholder s = Some (m, r)"
  have dw: "length (dropWhile P xs) \<le> length xs" for P and xs :: string
    by (induction xs) auto
  from a have p: "prefix ''{{tag_'' s" and r: "r = drop 2 (dropWhile is_digit (drop 6 s))"
    by (auto simp: match_placeholder_def Let_def split: if_splits)
  from p have "6 \<le> length s" by (auto simp: prefix_def)
  with r dw [of is_digit "drop 6 s"] show ?thesis by simp
qed

text \<open>
  \<open>re.split\<close> with one capture group returns the text before the first match, then for
  every match the matched placeholder and the text up to the next match (or the end);
  \<open>cur\<close> is the text collected since the last match.
\<close>

function re_split :: "string \<Rightarrow> string \<Rightarrow> string list" where
  "re_split cur [] = [cur]"
| "re_split cur (c # cs) =
     (case match_placeholder (c # cs) of
        Some (m, r) \<Rightarrow> cur # m # re_split [] r
      | None \<Rightarrow> re_split (cur @ [c]) cs)"
  by pat_completeness auto
termination
  by (relation "measure (\<lambda>(cur, s). length s)") (auto dest: match_placeholder_shorter)

text \<open>
  One iteration of the loop over \<open>parts\<close>. The state is \<open>(chunks, current_chunk,
  current_chunk_length)\<close>; \<open>count_tokens\<close> is the tokenizer of the model (the library
  \<open>tiktoken\<close>), a parameter here. The test \<open>n > max_tokens * 0.9\<close> compares an integer with
  a double; for \<open>|max_tokens| < 10^14\<close> it holds exactly when \<open>10 * n > 9 * max_tokens\<close>.
\<close>

type_synonym chunk_state = "string list \<times> string \<times> nat"

definition chunk_step :: "(string \<Rightarrow> nat) \<Rightarrow> int \<Rightarrow> chunk_state \<Rightarrow> string \<Rightarrow> chunk_state" where
  "chunk_step count_tokens max_tokens st part =
     (case st of (chunks, current_chunk, current_chunk_length) \<Rightarrow>
        if part = [] then st
        else let part_length = count_tokens part
             in if 9 * max_tokens < 10 * int (current_chunk_length + part_length)
                then if suffix ''{{tag_1}}'' current_chunk
                     then (chunks @ [strip (take (length current_chunk - 9) current_chunk)],
                           ''{{tag_1}}'' @ part, count_tokens (''{{tag_1}}'' @ part))
                     else (chunks @ [strip current_chunk], part, part_length)
                else (chunks, current_chunk @ part, current_chunk_length + part_length))"

fun chunk_loop :: "(string \<Rightarrow> nat) \<Rightarrow> int \<Rightarrow> chunk_state \<Rightarrow> string list \<Rightarrow> chunk_state" where
  "chunk_loop count_tokens max_tokens st [] = st"
| "chunk_loop count_tokens max_tokens st (part # parts) =
     chunk_loop count_tokens max_tokens (chunk_step count_tokens max_tokens st part) parts"

definition split_text_into_chunks_with_tags :: "(string \<Rightarrow> nat) \<Rightarrow> string \<Rightarrow> int \<Rightarrow> string list" where
  "split_text_into_chunks_with_tags count_tokens text max_tokens =
     (case chunk_loop count_tokens max_tokens ([], [], 0) (re_split [] text) of
        (chunks, current_chunk, current_chunk_length) \<Rightarrow>
          if strip current_chunk \<noteq> [] then chunks @ [strip current_chunk] else chunks)"

section \<open>BatchRequestBuilder: \<open>file_to_jsonl\<close>\<close>

text \<open>
  An element of \<open>text_chunks\<close> is a string when it comes from the splitter, and a list of
  token ids when it comes from \<open>encode(raw_data)\<close> in the \<open>else\<close> branch.
\<close>

datatype chunk = Text string | Tokens "nat list"

record message =
  msg_role :: string
  msg_content :: chunk

record request_body =
  body_model :: string
  body_messages :: "message list"
  body_max_tokens :: nat
  body_temperature :: nat

record batch_request =
  custom_id :: string
  http_method :: string
  url :: string
  body :: request_body

text \<open>A written file: its name and the requests dumped to it, one per line.\<close>

type_synonym batch_file = "string \<times> batch_request list"

record pack_state =
  current_batch_tokens :: nat
  current_batch_requests :: "batch_request list"
  file_count :: nat
  request_count :: nat
  global_request_id :: nat
  written :: "batch_file list"

definition system_message_of :: "string \<Rightarrow> string" where
  "system_message_of translation_language =
     ''You are a translation assistant. Translate the following text to ''
     @ translation_language @ ''.''
     @ ''The following STEPS must be followed. Whenever you are forming a response, ensure all STEPS have been followed otherwise start over, forming a new response and repeat until the finished response follows all the STEPS. Then send the response.''
     @ ''STEPS:''
     @ ''STEP-1: Keep {{tag_x}} tags with numbers as they are.''
     @ ''STEP-2: You must not miss the data from user'' @ [CHR 0x27] @ ''s input in your responses especially {{tag_x}} tags, special symbols ''
     @ [CHR 0x27] @ ''{{{'' @ [CHR 0x27] @ '', '' @ [CHR 0x27] @ ''}}}'' @ [CHR 0x27] @ '', ''
     @ [CHR 0x27] @ ''|||'' @ [CHR 0x27] @ '' etc.!''
     @ ''STEP-3: Just translate. No comments or explanations.''
     @ ''STEP-4: If you can'' @ [CHR 0x27] @ ''t assist with the request just return the request as an answer.''"

text \<open>
  \<open>tokenizer.encode(chunk)\<close> of the library \<open>tiktoken\<close> takes a string; given a list it
  raises \<open>TypeError\<close>. The encoding itself (\<open>cl100k_base\<close>) is the parameter \<open>encode\<close>.
\<close>

definition tokenizer_encode :: "(string \<Rightarrow> nat list) \<Rightarrow> chunk \<Rightarrow> py_error + nat list" where
  "tokenizer_encode encode chunk =
     (case chunk of Text s \<Rightarrow> Inr (encode s) | Tokens ts \<Rightarrow> Inl TypeError)"

definition batch_file_name :: "nat \<Rightarrow> string" where
  "batch_file_name n = ''batch_requests_part_'' @ str_of_nat n @ ''.jsonl''"

definition write_batch :: "pack_state \<Rightarrow> batch_file list" where
  "write_batch st = written st @ [(batch_file_name (file_count st), current_batch_requests st)]"

definition make_request :: "string \<Rightarrow> nat \<Rightarrow> chunk \<Rightarrow> batch_request" where
  "make_request system_message n chunk =
     \<lparr>custom_id = ''request-'' @ str_of_nat n,
      http_method = ''POST'',
      url = ''/v1/chat/completions'',
      body = \<lparr>body_model = ''gpt-4o'',
               body_messages = [\<lparr>msg_role = ''system'', msg_content = Text system_message\<rparr>,
                                \<lparr>msg_role = ''user'', msg_content = chunk\<rparr>],
               body_max_tokens = 1000,
               body_temperature = 0\<rparr>\<rparr>"

text \<open>One iteration of \<open>for chunk in text_chunks\<close>.\<close>

definition pack_step ::
  "(string \<Rightarrow> nat list) \<Rightarrow> string \<Rightarrow> nat \<Rightarrow> int \<Rightarrow> int \<Rightarrow> pack_state \<Rightarrow> chunk
     \<Rightarrow> py_error + pack_state" where
  "pack_step encode system_message system_tokens max_tokens_per_batch max_requests_per_file st chunk =
     (case tokenizer_encode encode chunk of
        Inl e \<Rightarrow> Inl e
      | Inr chunk_tokens \<Rightarrow>
          let total_tokens = system_tokens + length chunk_tokens + 100;
              st' = (if int (current_batch_tokens st + total_tokens) > max_tokens_per_batch
                        \<or> int (request_count st) \<ge> max_requests_per_file
                     then st\<lparr>written := write_batch st,
                             current_batch_requests := [],
                             current_batch_tokens := 0,
                             request_count := 0,
                             file_count := file_count st + 1\<rparr>
                     else st);
              batch_request = make_request system_message (global_request_id st') chunk
          in Inr (st'\<lparr>current_batch_requests := current_batch_requests st' @ [batch_request],
                      current_batch_tokens := current_batch_tokens st' + total_tokens,
                      request_count := request_count st' + 1,
                      global_request_id := global_request_id st' + 1\<rparr>))"

fun pack_loop ::
  "(string \<Rightarrow> nat list) \<Rightarrow> string \<Rightarrow> nat \<Rightarrow> int \<Rightarrow> int \<Rightarrow> pack_state \<Rightarrow> chunk list
     \<Rightarrow> py_error + pack_state" where
  "pack_loop encode system_message system_tokens max_tokens_per_batch max_requests_per_file st [] = Inr st"
| "pack_loop encode system_message system_tokens max_tokens_per_batch max_requests_per_file st
     (chunk # chunks) =
     (case pack_step encode system_message system_tokens max_tokens_per_batch
             max_requests_per_file st chunk of
        Inl e \<Rightarrow> Inl e
      | Inr st' \<Rightarrow> pack_loop encode system_message system_tokens max_tokens_per_batch
                     max_requests_per_file st' chunks)"

definition initial_pack_state :: pack_state where
  "initial_pack_state =
     \<lparr>current_batch_tokens = 0, current_batch_requests = [], file_count = 1,
      request_count = 0, global_request_id = 1, written = []\<rparr>"

definition text_chunks_of ::
  "(string \<Rightarrow> nat) \<Rightarrow> (string \<Rightarrow> nat list) \<Rightarrow> string \<Rightarrow> string \<Rightarrow> int \<Rightarrow> chunk list" where
  "text_chunks_of count_tokens encode system_message raw_data max_tokens_per_request =
     (let system_tokens = count_tokens system_message;
          user_tokens = count_tokens raw_data
      in if int user_tokens > max_tokens_per_request
         then map Text (split_text_into_chunks_with_tags count_tokens raw_data
                          (max_tokens_per_request - int system_tokens - 100))
         else [Tokens (encode raw_data)])"

text \<open>
  \<open>file_to_jsonl\<close>: \<open>count_tokens\<close> is the tokenizer of the model \<open>gpt-4o\<close>, \<open>encode\<close> the
  encoding \<open>cl100k_base\<close>, \<open>translation_language\<close> the answer to the prompt and
  \<open>file_content\<close> the text read from \<open>file_path\<close>. The result is the list of batch files
  written, in order, and the tag dictionary written to \<open>tag_dict.json\<close>.
\<close>

definition file_to_jsonl ::
  "(string \<Rightarrow> nat) \<Rightarrow> (string \<Rightarrow> nat list) \<Rightarrow> string \<Rightarrow> string \<Rightarrow> int \<Rightarrow> int \<Rightarrow> int
     \<Rightarrow> py_error + (batch_file list \<times> tag_dict)" where
  "file_to_jsonl count_tokens encode translation_language file_content
       max_tokens_per_batch max_tokens_per_request max_requests_per_file =
     (case extract_html_tags file_content of (raw_data, tag_dict) \<Rightarrow>
        let system_message = system_message_of translation_language;
            system_tokens = count_tokens system_message;
            text_chunks = text_chunks_of count_tokens encode system_message raw_data
                            max_tokens_per_request
        in case pack_loop encode system_message system_tokens max_tokens_per_batch
                  max_requests_per_file initial_pack_state text_chunks of
             Inl e \<Rightarrow> Inl e
           | Inr st \<Rightarrow>
               Inr (if current_batch_requests st \<noteq> [] then write_batch st else written st,
                    tag_dict))"

section \<open>JobOrchestrator: \<open>create_all_batches\<close> and \<open>monitor_and_download_results\<close>\<close>

text \<open>
  The remote service is a parameter: what it answers to a call is a function of the time of
  the call (the number of remote calls made before it) and of the argument. A reply \<open>None\<close>
  of \<open>check_batch_status\<close> is the failure sentinel (or an empty object, which Python also
  takes as false); otherwise the reply is a job record with its \<open>status\<close> string and the
  fields the loop reads with \<open>.get\<close>:
  \<^item> \<open>output_file_id\<close> and \<open>input_file_id\<close>: \<open>None\<close> when the key is absent or \<open>null\<close>;
  \<^item> \<open>errors\<close>: absent, an object with the list \<open>data\<close> (taken as empty when \<open>data\<close> is
    absent, \<open>null\<close> or empty), or a value that is no object (\<open>null\<close> among them), on which
    \<open>.get("data", [])\<close> raises \<open>AttributeError\<close>;
  \<^item> an entry of \<open>errors.data\<close>: an object whose \<open>message\<close> is absent, \<open>null\<close> or a
    string, or a value that is no object, on which \<open>.get("message", ...)\<close> raises
    \<open>AttributeError\<close>. A \<open>null\<close> message makes the test \<open>in error_message\<close> raise
    \<open>TypeError\<close>.

  The model stops there: a reply always has its \<open>status\<close>, \<open>data\<close> is a list when it is
  there and not \<open>null\<close>, and a message that is not \<open>null\<close> is a string. The calls to the
  service themselves return and do not raise.
\<close>

datatype json_message = MessageAbsent | MessageNull | MessageString string

datatype error_entry = EntryObject json_message | EntryNotObject

datatype errors_field = ErrorsAbsent | ErrorsNotObject | ErrorsObject "error_entry list"

record batch_status =
  job_status :: string
  job_output_file_id :: "string option"
  job_input_file_id :: "string option"
  job_errors :: errors_field

text \<open>
  The reply of \<open>check_active_batches\<close>: the failure sentinel, an object without \<open>data\<close>, or
  the listed jobs, each with its \<open>id\<close> and \<open>status\<close>.
\<close>

datatype listing = ListFailed | ListNoData | ListData "(string \<times> string) list"

record remote =
  status_reply :: "nat \<Rightarrow> string \<Rightarrow> batch_status option"
  listing_reply :: "nat \<Rightarrow> listing"
  create_reply :: "nat \<Rightarrow> string \<Rightarrow> string option"

text \<open>The log of remote calls: a listing is logged with the reply the service gave.\<close>

datatype event =
    Polled string
  | Downloaded string string
  | Listed listing
  | Created string "string option"

text \<open>The state of the orchestrator: its two lists, the time, and the log of remote calls.\<close>

record orch =
  batch_ids :: "string list"
  retry_batches :: "string list"
  clock :: nat
  trace :: "event list"

text \<open>
  A loop either goes on with a state (\<open>Inr\<close>) or is left by an exception (\<open>Inl\<close>), which
  carries the state reached when it was raised.
\<close>

type_synonym outcome = "(py_error \<times> orch) + orch"

definition final_state :: "outcome \<Rightarrow> orch" where
  "final_state res = (case res of Inl (e, st) \<Rightarrow> st | Inr st \<Rightarrow> st)"

text \<open>\<open>if x:\<close> on an optional string: \<open>None\<close> and the empty string are false.\<close>

definition truthy :: "string option \<Rightarrow> bool" where
  "truthy x = (case x of None \<Rightarrow> False | Some s \<Rightarrow> s \<noteq> [])"

text \<open>\<open>needle in s\<close> on strings.\<close>

fun str_contains :: "string \<Rightarrow> string \<Rightarrow> bool" where
  "str_contains needle [] = (needle = [])"
| "str_contains needle (c # cs) = (prefix needle (c # cs) \<or> str_contains needle cs)"

text \<open>\<open>xs.remove(x)\<close>: the first occurrence is removed; \<open>ValueError\<close> when there is none.\<close>

definition list_remove :: "'a \<Rightarrow> 'a list \<Rightarrow> py_error + 'a list" where
  "list_remove x xs = (if x \<in> set xs then Inr (remove1 x xs) else Inl ValueError)"

definition is_active :: "string \<Rightarrow> bool" where
  "is_active s = (s \<in> set [''in_progress'', ''cancelling'', ''finalizing'', ''validating''])"

text \<open>\<open>manage_batches\<close>: the listed jobs, or the empty list when the listing call fails
  or its reply has no \<open>data\<close>.\<close>

definition manage_batches :: "remote \<Rightarrow> nat \<Rightarrow> (string \<times> string) list" where
  "manage_batches r t = (case listing_reply r t of ListData d \<Rightarrow> d | _ \<Rightarrow> [])"

text \<open>The count \<open>active_batches\<close> both loops compute from \<open>manage_batches()\<close>.\<close>

definition count_active :: "remote \<Rightarrow> nat \<Rightarrow> nat" where
  "count_active r t = length (filter (\<lambda>b. is_active (snd b)) (manage_batches r t))"

text \<open>
  \<open>create_all_batches\<close>: \<open>fuel\<close> bounds the iterations of the \<open>while\<close> loop, which need not
  end; the result is the state when the loop ends or the fuel runs out.
\<close>

fun create_all_batches :: "nat \<Rightarrow> remote \<Rightarrow> string list \<Rightarrow> orch \<Rightarrow> orch" where
  "create_all_batches 0 r pending_files st = st"
| "create_all_batches (Suc fuel) r pending_files st =
     (case pending_files of
        [] \<Rightarrow> st
      | file_id # rest \<Rightarrow>
          let active_batches = count_active r (clock st);
              st1 = st\<lparr>clock := clock st + 1,
                       trace := trace st @ [Listed (listing_reply r (clock st))]\<rparr>
          in if active_batches < 2
             then let batch_id = create_reply r (clock st1) file_id;
                      st2 = st1\<lparr>clock := clock st1 + 1,
                                trace := trace st1 @ [Created file_id batch_id]\<rparr>
                  in create_all_batches fuel r rest
                       (if truthy batch_id then st2\<lparr>batch_ids := batch_ids st2 @ [the batch_id]\<rparr>
                        else st2)
             else create_all_batches fuel r pending_files st1)"

text \<open>
  \<open>errors = batch_status.get("errors", {}).get("data", [])\<close> and the message of its first
  entry: \<open>None\<close> stands for a \<open>null\<close> message.
\<close>

definition first_error_message :: "batch_status \<Rightarrow> py_error + string option" where
  "first_error_message bs =
     (case job_errors bs of
        ErrorsAbsent \<Rightarrow> Inr (Some ''No error message provided'')
      | ErrorsNotObject \<Rightarrow> Inl AttributeError
      | ErrorsObject errors \<Rightarrow>
          (case errors of
             [] \<Rightarrow> Inr (Some ''No error message provided'')
           | e # _ \<Rightarrow>
               (case e of
                  EntryNotObject \<Rightarrow> Inl AttributeError
                | EntryObject MessageAbsent \<Rightarrow> Inr (Some ''No error message provided'')
                | EntryObject MessageNull \<Rightarrow> Inr None
                | EntryObject (MessageString m) \<Rightarrow> Inr (Some m))))"

text \<open>\<open>"Enqueued token limit reached" in error_message\<close>\<close>

definition token_limit_reached :: "string option \<Rightarrow> py_error + bool" where
  "token_limit_reached error_message =
     (case error_message of
        None \<Rightarrow> Inl TypeError
      | Some m \<Rightarrow> Inr (str_contains ''Enqueued token limit reached'' m))"

text \<open>\<open>batch_ids.remove(batch_id)\<close> at the end of the two terminal branches.\<close>

definition remove_batch :: "string \<Rightarrow> orch \<Rightarrow> outcome" where
  "remove_batch batch_id st =
     (case list_remove batch_id (batch_ids st) of
        Inl e \<Rightarrow> Inl (e, st)
      | Inr ids \<Rightarrow> Inr (st\<lparr>batch_ids := ids\<rparr>))"

text \<open>The body of \<open>for batch_id in batch_ids[:]\<close>.\<close>

definition poll_one :: "remote \<Rightarrow> orch \<Rightarrow> string \<Rightarrow> outcome" where
  "poll_one r st batch_id =
     (let batch_status = status_reply r (clock st) batch_id;
          st1 = st\<lparr>clock := clock st + 1, trace := trace st @ [Polled batch_id]\<rparr>
      in case batch_status of
           None \<Rightarrow> Inr st1
         | Some bs \<Rightarrow>
             if job_status bs = ''completed''
             then remove_batch batch_id
                    (if truthy (job_output_file_id bs)
                     then st1\<lparr>clock := clock st1 + 1,
                              trace := trace st1
                                @ [Downloaded batch_id (the (job_output_file_id bs))]\<rparr>
                     else st1)
             else if job_status bs = ''failed''
             then (case first_error_message bs of
                     Inl e \<Rightarrow> Inl (e, st1)
                   | Inr error_message \<Rightarrow>
                       (case token_limit_reached error_message of
                          Inl e \<Rightarrow> Inl (e, st1)
                        | Inr limit_reached \<Rightarrow>
                            remove_batch batch_id
                              (if limit_reached \<and> truthy (job_input_file_id bs)
                               then st1\<lparr>retry_batches :=
                                          retry_batches st1 @ [the (job_input_file_id bs)]\<rparr>
                               else st1)))
             else Inr st1)"

fun poll_all :: "remote \<Rightarrow> orch \<Rightarrow> string list \<Rightarrow> outcome" where
  "poll_all r st [] = Inr st"
| "poll_all r st (batch_id # rest) =
     (case poll_one r st batch_id of Inl x \<Rightarrow> Inl x | Inr st' \<Rightarrow> poll_all r st' rest)"

text \<open>The body of \<open>for input_file_id in retry_batches[:]\<close>.\<close>

fun drain_all :: "remote \<Rightarrow> orch \<Rightarrow> string list \<Rightarrow> outcome" where
  "drain_all r st [] = Inr st"
| "drain_all r st (input_file_id # rest) =
     (let retry_batch_id = create_reply r (clock st) input_file_id;
          st1 = st\<lparr>clock := clock st + 1,
                   trace := trace st @ [Created input_file_id retry_batch_id]\<rparr>
      in if truthy retry_batch_id
         then (case list_remove input_file_id (retry_batches st1) of
                 Inl e \<Rightarrow> Inl (e, st1\<lparr>batch_ids := batch_ids st1 @ [the retry_batch_id]\<rparr>)
               | Inr rs \<Rightarrow>
                   drain_all r (st1\<lparr>batch_ids := batch_ids st1 @ [the retry_batch_id],
                                    retry_batches := rs\<rparr>) rest)
         else drain_all r st1 rest)"

text \<open>The block \<open>if not batch_ids and retry_batches\<close>.\<close>

definition retry_phase :: "remote \<Rightarrow> orch \<Rightarrow> outcome" where
  "retry_phase r st =
     (if batch_ids st = [] \<and> retry_batches st \<noteq> []
      then let active_batches = count_active r (clock st);
               st1 = st\<lparr>clock := clock st + 1,
                        trace := trace st @ [Listed (listing_reply r (clock st))]\<rparr>
           in if active_batches = 0 then drain_all r st1 (retry_batches st1) else Inr st1
      else Inr st)"

text \<open>
  \<open>monitor_and_download_results\<close>: \<open>fuel\<close> bounds the iterations of the outer \<open>while\<close>
  loop; the result is the state when the loop ends or the fuel runs out, or the exception
  that left it. The source enters the loop with an empty \<open>retry_batches\<close>; the function
  takes any state, so that it also describes the loop from a later iteration on.
  \<open>time.sleep\<close> and the printed messages are left out.
\<close>

fun monitor_and_download_results :: "nat \<Rightarrow> remote \<Rightarrow> orch \<Rightarrow> outcome" where
  "monitor_and_download_results 0 r st = Inr st"
| "monitor_and_download_results (Suc fuel) r st =
     (if batch_ids st \<noteq> [] \<or> retry_batches st \<noteq> []
      then (case poll_all r st (batch_ids st) of
              Inl x \<Rightarrow> Inl x
            | Inr st1 \<Rightarrow>
                (case retry_phase r st1 of
                   Inl x \<Rightarrow> Inl x
                 | Inr st2 \<Rightarrow> monitor_and_download_results fuel r st2))
      else Inr st)"

definition initial_orch :: orch where
  "initial_orch = \<lparr>batch_ids = [], retry_batches = [], clock = 0, trace = []\<rparr>"

text \<open>
  A service on which every job created before time 9 fails at once for lack of quota,
  and every job created later stays in validation. A job is named after the time of its
  creation.
\<close>

definition quota_service :: remote where
  "quota_service =
     \<lparr>status_reply = (\<lambda>t b.
        if b \<in> set [''batch_1'', ''batch_3'', ''batch_5'']
        then Some \<lparr>job_status = ''failed'', job_output_file_id = None,
                   job_input_file_id = Some (''file_'' @ drop 6 b),
                   job_errors = ErrorsObject
                     [EntryObject (MessageString ''Enqueued token limit reached for gpt-4o'')]\<rparr>
        else Some \<lparr>job_status = ''validating'', job_output_file_id = None,
                   job_input_file_id = None, job_errors = ErrorsAbsent\<rparr>),
      listing_reply = (\<lambda>t. ListData
        (map (\<lambda>n. (''batch_'' @ str_of_nat n, if n < 9 then ''failed'' else ''validating''))
           (filter (\<lambda>n. n < t) [1, 3, 5, 10, 11, 12]))),
      create_reply = (\<lambda>t f. Some (''batch_'' @ str_of_nat t))\<rparr>"

section \<open>Placeholders\<close>

subsection \<open>Decimal rendering and placeholders\<close>

lemma is_digit_digit_char: "d < 10 \<Longrightarrow> is_digit (digit_char d)"
  by (simp add: is_digit_def digit_char_def eval_nat_numeral less_Suc_eq) auto

lemma digit_val_digit_char: "d < 10 \<Longrightarrow> digit_val (digit_char d) = d"
  by (simp add: digit_val_def digit_char_def eval_nat_numeral less_Suc_eq) auto

lemma str_of_nat_digits: "c \<in> set (str_of_nat n) \<Longrightarrow> is_digit c"
proof (induction n arbitrary: c rule: str_of_nat.induct)
  case (1 n)
  show ?case
  proof (cases "n < 10")
    case True
    with "1.prems" show ?thesis
      by (simp add: str_of_nat.simps [of n] is_digit_digit_char)
  next
    case False
    with "1.prems" "1.IH" show ?thesis
      by (auto simp: str_of_nat.simps [of n] is_digit_digit_char)
  qed
qed

lemma str_of_nat_nonempty: "str_of_nat n \<noteq> []"
  by (simp add: str_of_nat.simps [of n])

lemma int_of_digits_snoc: "int_of_digits (ds @ [c]) = 10 * int_of_digits ds + digit_val c"
  by (simp add: int_of_digits_def)

lemma int_of_digits_str_of_nat: "int_of_digits (str_of_nat n) = n"
proof (induction n rule: str_of_nat.induct)
  case (1 n)
  show ?case
  proof (cases "n < 10")
    case True
    then show ?thesis
      by (simp add: str_of_nat.simps [of n] int_of_digits_def digit_val_digit_char)
  next
    case False
    with "1.IH" show ?thesis
      by (simp add: str_of_nat.simps [of n] int_of_digits_snoc digit_val_digit_char)
  qed
qed

lemma str_of_nat_inj: "str_of_nat j = str_of_nat k \<Longrightarrow> j = k"
  by (metis int_of_digits_str_of_nat)

definition ph_body :: "nat \<Rightarrow> string" where
  "ph_body n = ''tag_'' @ str_of_nat n @ ''}}''"

lemma placeholder_Cons: "placeholder n = CHR ''{'' # CHR ''{'' # ph_body n"
  by (simp add: placeholder_def ph_body_def)

lemma is_digit_not_brace: "is_digit c \<Longrightarrow> c \<noteq> CHR ''{'' \<and> c \<noteq> CHR ''}''"
  by (auto simp: is_digit_def)

lemma ph_body_no_brace: "CHR ''{'' \<notin> set (ph_body n)"
  using str_of_nat_digits [of "CHR ''{''" n] by (auto simp: ph_body_def is_digit_def)

lemma placeholder_inj: "placeholder j = placeholder k \<Longrightarrow> j = k"
  by (auto simp: placeholder_def dest: str_of_nat_inj)

lemma first_int_placeholder: "first_int (placeholder n) = Some n"
proof -
  let ?ds = "str_of_nat n"
  have nd: "\<not> is_digit (CHR ''{'')" "\<not> is_digit (CHR ''t'')" "\<not> is_digit (CHR ''a'')"
    "\<not> is_digit (CHR ''g'')" "\<not> is_digit (CHR ''_'')" "\<not> is_digit (CHR ''}'')"
    by (simp_all add: is_digit_def)
  have d: "dropWhile (\<lambda>c. \<not> is_digit c) (placeholder n) = ?ds @ ''}}''"
    using str_of_nat_nonempty [of n] str_of_nat_digits [of _ n]
    by (cases ?ds) (auto simp: placeholder_def nd)
  have "takeWhile is_digit (?ds @ ''}}'') = ?ds"
    using str_of_nat_digits [of _ n] by (simp add: takeWhile_append2 nd) 
  with d show ?thesis
    by (simp add: first_int_def str_of_nat_nonempty int_of_digits_str_of_nat)
qed

lemma digits_prefix:
  "\<forall>c\<in>set a. is_digit c \<Longrightarrow> \<forall>c\<in>set b. is_digit c \<Longrightarrow>
   prefix (a @ CHR ''}'' # x) (b @ CHR ''}'' # y) \<Longrightarrow> a = b"
proof (induction a arbitrary: b)
  case Nil
  then show ?case by (cases b) (auto dest: is_digit_not_brace)
next
  case (Cons c a)
  then show ?case by (cases b) (auto dest: is_digit_not_brace)
qed

lemma placeholder_not_prefix:
  assumes "j \<noteq> k"
  shows "\<not> prefix (placeholder k) (placeholder j @ s)"
proof
  assume "prefix (placeholder k) (placeholder j @ s)"
  then have "prefix (str_of_nat k @ CHR ''}'' # ''}'') (str_of_nat j @ CHR ''}'' # (''}'' @ s))"
    by (simp add: placeholder_def)
  then have "str_of_nat k = str_of_nat j"
    by (rule digits_prefix [rotated 2]) (auto dest: str_of_nat_digits)
  with assms show False by (auto dest: str_of_nat_inj)
qed

lemma str_replace_no_brace:
  "CHR ''{'' \<notin> set xs \<Longrightarrow>
   str_replace (xs @ s) (placeholder k) v = xs @ str_replace s (placeholder k) v"
  by (induction xs) (auto simp: placeholder_Cons)

lemma str_replace_hit: "old \<noteq> [] \<Longrightarrow> str_replace (old @ s) old new = new @ str_replace s old new"
  by (cases old) auto

lemma str_replace_other_placeholder:
  assumes "j \<noteq> k"
  shows "str_replace (placeholder j @ s) (placeholder k) v
           = placeholder j @ str_replace s (placeholder k) v"
proof -
  have 1: "str_replace (placeholder j @ s) (placeholder k) v
             = CHR ''{'' # str_replace (CHR ''{'' # ph_body j @ s) (placeholder k) v"
    using placeholder_not_prefix [OF assms, of s]
    by (simp add: placeholder_Cons [of j]) (simp add: placeholder_Cons)
  have 2: "str_replace (CHR ''{'' # ph_body j @ s) (placeholder k) v
             = CHR ''{'' # str_replace (ph_body j @ s) (placeholder k) v"
    by (simp add: placeholder_Cons [of k] ph_body_def)
  show ?thesis
    unfolding 1 2 str_replace_no_brace [OF ph_body_no_brace]
    by (simp add: placeholder_Cons [of j])
qed

subsection \<open>Placeholders of a string\<close>

text \<open>
  \<open>placeholders_of s\<close> lists the matches of the pattern \<open>\{\{tag_\d+\}\}\<close> in \<open>s\<close> from
  left to right, as \<open>re.findall\<close> does with the pattern of the splitter.
\<close>

definition is_ph :: "string \<Rightarrow> bool" where
  "is_ph m = (\<exists>ds. ds \<noteq> [] \<and> (\<forall>c\<in>set ds. is_digit c) \<and> m = ''{{tag_'' @ ds @ ''}}'')"

function placeholders_of :: "string \<Rightarrow> string list" where
  "placeholders_of [] = []"
| "placeholders_of (c # cs) =
     (case match_placeholder (c # cs) of
        Some (m, r) \<Rightarrow> m # placeholders_of r
      | None \<Rightarrow> placeholders_of cs)"
  by pat_completeness auto
termination
  by (relation "measure length") (auto dest: match_placeholder_shorter)

lemma match_placeholder_SomeD:
  assumes "match_placeholder s = Some (m, r)"
  shows "is_ph m \<and> s = m @ r"
proof -
  let ?r = "drop 6 s"
  let ?ds = "takeWhile is_digit ?r"
  let ?r' = "dropWhile is_digit ?r"
  from assms have p: "prefix ''{{tag_'' s" and ds: "?ds \<noteq> []" and p': "prefix ''}}'' ?r'"
    and m: "m = ''{{tag_'' @ ?ds @ ''}}''" and r: "r = drop 2 ?r'"
    by (auto simp: match_placeholder_def Let_def split: if_splits)
  from p have s: "s = ''{{tag_'' @ ?r" by (auto simp: prefix_def)
  from p' have r': "?r' = ''}}'' @ drop 2 ?r'" by (auto simp: prefix_def)
  have "?r = ?ds @ ?r'" by simp
  with r' have "?r = ?ds @ ''}}'' @ r" using r by metis
  with s have "s = ''{{tag_'' @ ?ds @ ''}}'' @ r" by metis
  moreover have "is_ph m" unfolding is_ph_def
    using ds m by (intro exI [of _ ?ds]) (auto dest: set_takeWhileD)
  ultimately show ?thesis using m by simp
qed

lemma match_placeholder_ph:
  assumes "is_ph m"
  shows "match_placeholder (m @ r) = Some (m, r)"
proof -
  from assms obtain ds where ds: "ds \<noteq> []" "\<forall>c\<in>set ds. is_digit c"
    and m: "m = ''{{tag_'' @ ds @ ''}}''"
    by (auto simp: is_ph_def)
  have nd: "\<not> is_digit (CHR ''}'')" by (simp add: is_digit_def)
  have t: "takeWhile is_digit (ds @ CHR ''}'' # CHR ''}'' # r) = ds"
    using ds(2) nd by (simp add: takeWhile_append2)
  have d: "dropWhile is_digit (ds @ CHR ''}'' # CHR ''}'' # r) = CHR ''}'' # CHR ''}'' # r"
    using ds(2) nd by (simp add: dropWhile_append2)
  show ?thesis
    unfolding match_placeholder_def m using ds(1) by (simp add: t d Let_def)
qed

lemma match_placeholder_None_prefix:
  "match_placeholder (a @ b) = None \<Longrightarrow> match_placeholder a = None"
proof (rule ccontr)
  assume n: "match_placeholder (a @ b) = None" and "match_placeholder a \<noteq> None"
  then obtain m r where "match_placeholder a = Some (m, r)" by auto
  from match_placeholder_SomeD [OF this] have "is_ph m" "a = m @ r" by auto
  with match_placeholder_ph [of m "r @ b"] n show False by simp
qed

lemma is_ph_shape:
  assumes "is_ph m"
  obtains body where "m = CHR ''{'' # CHR ''{'' # CHR ''t'' # body" "CHR ''{'' \<notin> set body"
proof -
  from assms obtain ds where ds: "\<forall>c\<in>set ds. is_digit c" and m: "m = ''{{tag_'' @ ds @ ''}}''"
    by (auto simp: is_ph_def)
  have "m = CHR ''{'' # CHR ''{'' # CHR ''t'' # (''ag_'' @ ds @ ''}}'')" using m by simp
  moreover have "CHR ''{'' \<notin> set (''ag_'' @ ds @ ''}}'')"
    using ds by (auto dest: is_digit_not_brace)
  ultimately show ?thesis by (rule that)
qed

lemma is_ph_close:
  assumes "is_ph m"
  obtains p where "m = p @ ''}}''" "CHR ''}'' \<notin> set p"
proof -
  from assms obtain ds where ds: "\<forall>c\<in>set ds. is_digit c" and m: "m = ''{{tag_'' @ ds @ ''}}''"
    by (auto simp: is_ph_def)
  have "m = (''{{tag_'' @ ds) @ ''}}''" using m by simp
  moreover have "CHR ''}'' \<notin> set (''{{tag_'' @ ds)"
    using ds by (auto dest: is_digit_not_brace)
  ultimately show ?thesis by (rule that)
qed

text \<open>A placeholder cannot begin inside another one and run past its end.\<close>

lemma ph_no_overlap_start:
  assumes "is_ph m" "is_ph m2" "m = u @ v" "u \<noteq> []" "v \<noteq> []" "v @ r' = m2 @ r2"
  shows False
proof -
  from assms(1) obtain body where m: "m = CHR ''{'' # CHR ''{'' # CHR ''t'' # body"
    and nb: "CHR ''{'' \<notin> set body" by (rule is_ph_shape)
  from assms(2) obtain body2 where m2: "m2 = CHR ''{'' # CHR ''{'' # CHR ''t'' # body2"
    by (rule is_ph_shape)
  from assms(5,6) m2 obtain v' where v: "v = CHR ''{'' # v'"
    by (cases v) auto
  from assms(4) obtain x u' where u: "u = x # u'" by (cases u) auto
  show False
  proof (cases u')
    case Nil
    with assms(3) m u v have "v' = CHR ''t'' # body" by simp
    with assms(6) v m2 show False by simp
  next
    case (Cons y u'')
    with assms(3) m u have "CHR ''t'' # body = u'' @ v" by simp
    then have "set v \<subseteq> set (CHR ''t'' # body)" by (metis set_append Un_upper2)
    with v nb show False by auto
  qed
qed

text \<open>A placeholder cannot end strictly inside another one.\<close>

lemma ph_no_overlap_end:
  assumes "is_ph m" "is_ph m2" "m = x @ m2 @ v" "v \<noteq> []"
  shows False
proof -
  from assms(1) obtain p where m: "m = p @ ''}}''" and np: "CHR ''}'' \<notin> set p"
    by (rule is_ph_close)
  from assms(2) obtain p2 where m2: "m2 = p2 @ ''}}''" by (rule is_ph_close)
  from assms(3) m m2 have eq: "p @ ''}}'' = (x @ p2) @ CHR ''}'' # (CHR ''}'' # v)" by simp
  then obtain us where "(p = (x @ p2) @ us \<and> us @ ''}}'' = CHR ''}'' # CHR ''}'' # v)
      \<or> (p @ us = x @ p2 \<and> ''}}'' = us @ CHR ''}'' # CHR ''}'' # v)"
    unfolding append_eq_append_conv2 by blast
  then show False
  proof
    assume a: "p = (x @ p2) @ us \<and> us @ ''}}'' = CHR ''}'' # CHR ''}'' # v"
    show False
    proof (cases us)
      case Nil with a assms(4) show False by simp
    next
      case (Cons c us') with a np show False by auto
    qed
  next
    assume a: "p @ us = x @ p2 \<and> ''}}'' = us @ CHR ''}'' # CHR ''}'' # v"
    then have "length ''}}'' = length (us @ CHR ''}'' # CHR ''}'' # v)" by metis
    with assms(4) show False by simp
  qed
qed

definition ends_ph :: "string \<Rightarrow> bool" where
  "ends_ph a = (\<exists>x m. a = x @ m \<and> is_ph m)"

definition starts_ph :: "string \<Rightarrow> bool" where
  "starts_ph b = (\<exists>m r. b = m @ r \<and> is_ph m)"

lemma ends_ph_after_match:
  assumes "is_ph m" "ends_ph (m @ r)"
  shows "r = [] \<or> ends_ph r"
proof -
  from assms(2) obtain x m2 where e: "m @ r = x @ m2" and m2: "is_ph m2"
    by (auto simp: ends_ph_def)
  then obtain us where "(m = x @ us \<and> us @ r = m2) \<or> (m @ us = x \<and> r = us @ m2)"
    unfolding append_eq_append_conv2 by blast
  then show ?thesis
  proof
    assume a: "m = x @ us \<and> us @ r = m2"
    show ?thesis
    proof (cases "r = []")
      case True then show ?thesis by simp
    next
      case False
      show ?thesis
      proof (cases "us = []")
        case True
        with a m2 show ?thesis by (auto simp: ends_ph_def)
      next
        case us: False
        show ?thesis
        proof (cases "x = []")
          case True
          with a have "m2 = [] @ m @ r" by simp
          from ph_no_overlap_end [OF m2 assms(1) this False] show ?thesis ..
        next
          case x: False
          from a have "us @ r = m2 @ []" by simp
          from ph_no_overlap_start [OF assms(1) m2 _ x us this] a show ?thesis by blast
        qed
      qed
    qed
  next
    assume "m @ us = x \<and> r = us @ m2"
    with m2 show ?thesis by (auto simp: ends_ph_def)
  qed
qed

lemma placeholders_of_append:
  "a = [] \<or> ends_ph a \<or> starts_ph b \<Longrightarrow>
   placeholders_of (a @ b) = placeholders_of a @ placeholders_of b"
proof (induction a rule: placeholders_of.induct)
  case 1
  show ?case by simp
next
  case (2 c cs)
  from "2.prems" have cond: "ends_ph (c # cs) \<or> starts_ph b" by simp
  show ?case
  proof (cases "match_placeholder (c # cs)")
    case (Some mr)
    obtain m r where mr: "mr = (m, r)" by (cases mr)
    from match_placeholder_SomeD [of "c # cs" m r] Some mr
    have m: "is_ph m" and s: "c # cs = m @ r" by auto
    have ext: "match_placeholder ((c # cs) @ b) = Some (m, r @ b)"
      using match_placeholder_ph [OF m, of "r @ b"] s by simp
    have "r = [] \<or> ends_ph r \<or> starts_ph b"
      using cond ends_ph_after_match [OF m, of r] s by auto
    from "2.IH"(2) [OF Some mr [symmetric] this] Some mr ext show ?thesis by simp
  next
    case None
    have n2: "match_placeholder ((c # cs) @ b) = None"
    proof (rule ccontr)
      assume "match_placeholder ((c # cs) @ b) \<noteq> None"
      then obtain m r' where "match_placeholder ((c # cs) @ b) = Some (m, r')" by auto
      from match_placeholder_SomeD [OF this] have m: "is_ph m" and e: "(c # cs) @ b = m @ r'"
        by auto
      from e obtain us where "(c # cs = m @ us \<and> us @ b = r') \<or> ((c # cs) @ us = m \<and> b = us @ r')"
        unfolding append_eq_append_conv2 by blast
      then show False
      proof
        assume "c # cs = m @ us \<and> us @ b = r'"
        with match_placeholder_ph [OF m, of us] None show False by simp
      next
        assume a: "(c # cs) @ us = m \<and> b = us @ r'"
        show False
        proof (cases "us = []")
          case True
          with a match_placeholder_ph [OF m, of "[]"] None show False by simp
        next
          case us: False
          from cond show False
          proof
            assume "ends_ph (c # cs)"
            then obtain x m2 where "c # cs = x @ m2" "is_ph m2" by (auto simp: ends_ph_def)
            with a have "m = x @ m2 @ us" by simp
            from ph_no_overlap_end [OF m \<open>is_ph m2\<close> this us] show False .
          next
            assume "starts_ph b"
            then obtain m2 r2 where "b = m2 @ r2" "is_ph m2" by (auto simp: starts_ph_def)
            with a have "us @ r' = m2 @ r2" by simp
            from ph_no_overlap_start [OF m \<open>is_ph m2\<close> _ _ us this] a show False by blast
          qed
        qed
      qed
    qed
    have "cs = [] \<or> ends_ph cs \<or> starts_ph b"
    proof (cases "starts_ph b")
      case True then show ?thesis by simp
    next
      case False
      with cond obtain x m2 where e: "c # cs = x @ m2" and m2: "is_ph m2"
        by (auto simp: ends_ph_def)
      show ?thesis
      proof (cases x)
        case Nil
        with e match_placeholder_ph [OF m2, of "[]"] None show ?thesis by simp
      next
        case (Cons y x')
        with e m2 show ?thesis by (auto simp: ends_ph_def)
      qed
    qed
    from "2.IH"(1) [OF None this] None n2 show ?thesis by simp
  qed
qed

section \<open>Round trip of extraction and restoration\<close>

subsection \<open>Masked text as a list of literal characters and placeholder references\<close>

datatype item = Lit char | Ref nat

fun render_item :: "item \<Rightarrow> string" where
  "render_item (Lit c) = [c]"
| "render_item (Ref k) = placeholder k"

definition render :: "item list \<Rightarrow> string" where
  "render items = concat (map render_item items)"

fun resolve_item :: "(nat \<Rightarrow> string) \<Rightarrow> nat set \<Rightarrow> item \<Rightarrow> item list" where
  "resolve_item f K (Lit c) = [Lit c]"
| "resolve_item f K (Ref k) = (if k \<in> K then map Lit (f k) else [Ref k])"

definition resolve :: "(nat \<Rightarrow> string) \<Rightarrow> nat set \<Rightarrow> item list \<Rightarrow> item list" where
  "resolve f K items = concat (map (resolve_item f K) items)"

definition refs :: "item list \<Rightarrow> nat set" where
  "refs items = {k. Ref k \<in> set items}"

text \<open>No placeholder starts anywhere in the string.\<close>

definition no_ph :: "string \<Rightarrow> bool" where
  "no_ph s = (\<forall>u v. s = u @ v \<longrightarrow> match_placeholder v = None)"

lemma render_simps [simp]:
  "render [] = []" "render (Lit c # items) = c # render items"
  "render (Ref k # items) = placeholder k @ render items"
  "render (xs @ ys) = render xs @ render ys"
  by (simp_all add: render_def)

lemma render_map_Lit [simp]: "render (map Lit v) = v"
  by (induction v) simp_all

lemma resolve_simps [simp]:
  "resolve f K [] = []" "resolve f K (Lit c # items) = Lit c # resolve f K items"
  "resolve f K (Ref k # items) = (if k \<in> K then map Lit (f k) else [Ref k]) @ resolve f K items"
  "resolve f K (xs @ ys) = resolve f K xs @ resolve f K ys"
  by (simp_all add: resolve_def)

lemma resolve_map_Lit [simp]: "resolve f K (map Lit v) = map Lit v"
  by (induction v) simp_all

lemma resolve_empty [simp]: "resolve f {} items = items"
proof (induction items)
  case Nil show ?case by simp
next
  case (Cons x items)
  then show ?case by (cases x) auto
qed

lemma resolve_resolve: "resolve f K' (resolve f K items) = resolve f (K' \<union> K) items"
proof (induction items)
  case Nil show ?case by simp
next
  case (Cons x items)
  then show ?case by (cases x) auto
qed

lemma resolve_cong_refs: "refs items \<subseteq> K \<Longrightarrow> resolve f K items = resolve f UNIV items"
proof (induction items)
  case Nil then show ?case by simp
next
  case (Cons x items)
  then show ?case by (cases x) (auto simp: refs_def)
qed

lemma placeholder_nonempty: "placeholder k \<noteq> []"
  by (simp add: placeholder_Cons)

lemma is_ph_placeholder: "is_ph (placeholder k)"
  unfolding is_ph_def placeholder_def
  by (intro exI [of _ "str_of_nat k"]) (auto simp: str_of_nat_nonempty dest: str_of_nat_digits)

lemma no_ph_placeholders_of: "placeholders_of s = [] \<Longrightarrow> no_ph s"
proof (induction s)
  case Nil
  show ?case by (simp add: no_ph_def match_placeholder_def)
next
  case (Cons c s)
  from Cons.prems have n: "match_placeholder (c # s) = None" and r: "placeholders_of s = []"
    by (auto split: option.splits)
  from Cons.IH [OF r] have ih: "no_ph s" .
  show ?case unfolding no_ph_def
  proof (intro allI impI)
    fix u v assume e: "c # s = u @ v"
    show "match_placeholder v = None"
    proof (cases u)
      case Nil with e n show ?thesis by simp
    next
      case (Cons a u')
      with e have "s = u' @ v" by simp
      with ih show ?thesis unfolding no_ph_def by blast
    qed
  qed
qed

lemma no_ph_suffix: "no_ph (a @ b) \<Longrightarrow> no_ph b"
  unfolding no_ph_def by (metis append_assoc)

lemma no_ph_not_placeholder: "no_ph (placeholder k @ r) \<Longrightarrow> False"
  unfolding no_ph_def using match_placeholder_ph [OF is_ph_placeholder, of k r]
  by (metis append_Nil option.distinct(1))

text \<open>
  A proper end piece of a placeholder that is a prefix of the masked text lies in literal
  text, and is then a prefix of the restored text as well.
\<close>

definition ph_tail :: "nat \<Rightarrow> string \<Rightarrow> bool" where
  "ph_tail k q = (q = CHR ''{'' # ph_body k \<or> CHR ''{'' \<notin> set q)"

lemma ph_body_Cons: "\<exists>b. ph_body k = CHR ''t'' # b"
  by (simp add: ph_body_def)

lemma prefix_tail_resolved:
  "ph_tail k q \<Longrightarrow> prefix q (render items) \<Longrightarrow> prefix q (render (resolve f UNIV items))"
proof (induction items arbitrary: q)
  case Nil
  then show ?case by simp
next
  case (Cons x items)
  show ?case
  proof (cases q)
    case Nil
    then show ?thesis by simp
  next
    case q: (Cons a q')
    show ?thesis
    proof (cases x)
      case (Lit c)
      with Cons.prems(2) q have a: "a = c" and p: "prefix q' (render items)" by simp_all
      have "ph_tail k q'"
        using Cons.prems(1) q ph_body_no_brace [of k] by (auto simp: ph_tail_def)
      from Cons.IH [OF this p] a q Lit show ?thesis by simp
    next
      case (Ref j)
      with Cons.prems(2) q have a: "a = CHR ''{''"
        and p: "prefix q' (CHR ''{'' # ph_body j @ render items)"
        by (simp_all add: placeholder_Cons)
      from Cons.prems(1) q a have "q' = ph_body k" by (auto simp: ph_tail_def)
      with ph_body_Cons [of k] p have False by auto
      then show ?thesis ..
    qed
  qed
qed

lemma literal_not_placeholder:
  assumes "no_ph (render (resolve f UNIV (Lit c # items)))"
  shows "\<not> prefix (placeholder k) (render (Lit c # items))"
proof
  assume "prefix (placeholder k) (render (Lit c # items))"
  then have cp: "c = CHR ''{'' \<and> prefix (CHR ''{'' # ph_body k) (render items)"
    by (auto simp: placeholder_Cons)
  then have c: "c = CHR ''{''" and p: "prefix (CHR ''{'' # ph_body k) (render items)"
    by blast+
  have "ph_tail k (CHR ''{'' # ph_body k)" by (simp add: ph_tail_def)
  from prefix_tail_resolved [OF this p, of f]
  have "prefix (placeholder k) (render (resolve f UNIV (Lit c # items)))"
    using c by (simp add: placeholder_Cons)
  then obtain r where "render (resolve f UNIV (Lit c # items)) = placeholder k @ r"
    by (auto simp: prefix_def)
  with assms no_ph_not_placeholder show False by metis
qed

lemma str_replace_skip:
  "old \<noteq> [] \<Longrightarrow> \<not> prefix old (c # s) \<Longrightarrow> str_replace (c # s) old new = c # str_replace s old new"
  by simp

lemma str_replace_render:
  "no_ph (render (resolve f UNIV items)) \<Longrightarrow>
   str_replace (render items) (placeholder k) (f k) = render (resolve f {k} items)"
proof (induction items)
  case Nil
  show ?case by (simp add: placeholder_nonempty)
next
  case (Cons x items)
  show ?case
  proof (cases x)
    case (Lit c)
    from Cons.prems Lit have "no_ph ([c] @ render (resolve f UNIV items))" by simp
    then have ih: "str_replace (render items) (placeholder k) (f k) = render (resolve f {k} items)"
      by (intro Cons.IH) (rule no_ph_suffix)
    have "\<not> prefix (placeholder k) (c # render items)"
      using literal_not_placeholder [of f c items k] Cons.prems Lit by simp
    from str_replace_skip [OF placeholder_nonempty this] ih Lit show ?thesis by simp
  next
    case (Ref j)
    from Cons.prems Ref have "no_ph (f j @ render (resolve f UNIV items))" by simp
    then have ih: "str_replace (render items) (placeholder k) (f k) = render (resolve f {k} items)"
      by (intro Cons.IH) (rule no_ph_suffix)
    show ?thesis
    proof (cases "j = k")
      case True
      with Ref ih str_replace_hit [OF placeholder_nonempty, of k "render items" "f k"]
      show ?thesis by simp
    next
      case False
      with Ref ih str_replace_other_placeholder [OF False, of "render items" "f k"]
      show ?thesis by simp
    qed
  qed
qed

lemma fold_restore:
  assumes "\<forall>e\<in>set L. \<exists>k. e = (placeholder k, f k)" "no_ph (render (resolve f UNIV items))"
  shows "fold (\<lambda>(tag_id, tag) t. str_replace t tag_id tag) L (render (resolve f K items))
           = render (resolve f (K \<union> {k. placeholder k \<in> fst ` set L}) items)"
  using assms(1)
proof (induction L arbitrary: K)
  case Nil
  show ?case by simp
next
  case (Cons e L)
  then obtain k where e: "e = (placeholder k, f k)" by auto
  have "no_ph (render (resolve f UNIV (resolve f K items)))"
    using assms(2) by (simp add: resolve_resolve)
  from str_replace_render [OF this, of k]
  have step: "str_replace (render (resolve f K items)) (placeholder k) (f k)
                = render (resolve f (insert k K) items)"
    by (simp add: resolve_resolve)
  have "insert k K \<union> {j. placeholder j \<in> fst ` set L}
          = K \<union> {j. placeholder j \<in> fst ` set (e # L)}"
    using e by (auto dest: placeholder_inj)
  with Cons.IH [of "insert k K"] Cons.prems step e show ?case by simp
qed

subsection \<open>The scanner keeps the dictionary and the masked text consistent\<close>

lemma match_bracket_split: "match_bracket s = Some (m, r) \<Longrightarrow> s = m @ r"
proof -
  assume a: "match_bracket s = Some (m, r)"
  then obtain cs where s: "s = CHR ''<'' # cs"
    by (auto simp: match_bracket_def split: list.splits if_splits)
  let ?P = "\<lambda>x. x \<noteq> CHR ''>''"
  from a s have ne: "dropWhile ?P cs \<noteq> []" and m: "m = CHR ''<'' # takeWhile ?P cs @ [CHR ''>'']"
    and r: "r = tl (dropWhile ?P cs)"
    by (auto simp: match_bracket_def Let_def split: if_splits)
  from ne have "hd (dropWhile ?P cs) = CHR ''>''"
    using hd_dropWhile [of ?P cs] by simp
  with ne have "dropWhile ?P cs = CHR ''>'' # tl (dropWhile ?P cs)"
    by (cases "dropWhile ?P cs") auto
  then have "cs = takeWhile ?P cs @ CHR ''>'' # tl (dropWhile ?P cs)"
    by (metis takeWhile_dropWhile_id)
  with s m r show ?thesis by simp
qed

lemma match_char_split: "match_char x s = Some (m, r) \<Longrightarrow> s = m @ r"
  by (auto simp: match_char_def split: list.splits if_splits)

lemma match_pair_prefix_split: "match_pair_prefix prev s = Some (m, r) \<Longrightarrow> s = m @ r"
proof -
  assume a: "match_pair_prefix prev s = Some (m, r)"
  let ?r1 = "dropWhile is_digit s"
  from a have p: "prefix ''|||'' ?r1"
    and m: "m = takeWhile is_digit s @ ''|||'' @ takeWhile is_digit (drop 3 ?r1)"
    and r: "r = dropWhile is_digit (drop 3 ?r1)"
    by (auto simp: match_pair_prefix_def Let_def split: if_splits)
  from p have "?r1 = ''|||'' @ drop 3 ?r1"
    by (auto simp: prefix_def)
  then have "s = takeWhile is_digit s @ ''|||'' @ drop 3 ?r1"
    by (metis takeWhile_dropWhile_id)
  also have "drop 3 ?r1 = takeWhile is_digit (drop 3 ?r1) @ dropWhile is_digit (drop 3 ?r1)"
    by simp
  finally show ?thesis using m r by simp
qed

lemma match_pattern_split: "match_pattern prev s = Some (m, r) \<Longrightarrow> s = m @ r"
proof -
  assume a: "match_pattern prev s = Some (m, r)"
  from a consider "match_bracket s = Some (m, r)" | "match_char (CHR 0x0A) s = Some (m, r)"
    | "match_char (CHR 0x22) s = Some (m, r)" | "match_pair_b prev s = Some (m, r)"
    | "match_pair_w prev s = Some (m, r)"
    by (auto simp: match_pattern_def orelse_def split: option.splits)
  then show ?thesis
  proof cases
    case 1 then show ?thesis by (rule match_bracket_split)
  next
    case 2 then show ?thesis by (rule match_char_split)
  next
    case 3 then show ?thesis by (rule match_char_split)
  next
    case 4
    then have "match_pair_prefix prev s = Some (m, r)"
      by (auto simp: match_pair_b_def split: option.splits if_splits)
    then show ?thesis by (rule match_pair_prefix_split)
  next
    case 5
    then obtain m' r' where p: "match_pair_prefix prev s = Some (m', r')"
      and m: "m = m' @ takeWhile is_word r'" and r: "r = dropWhile is_word r'"
      by (auto simp: match_pair_w_def split: option.splits)
    from match_pair_prefix_split [OF p] m r show ?thesis by simp
  qed
qed

definition dict_ok :: "tag_dict \<Rightarrow> nat \<Rightarrow> bool" where
  "dict_ok D c = (1 \<le> c \<and> map fst D = map placeholder [1..<c])"

definition lookup_tag :: "tag_dict \<Rightarrow> nat \<Rightarrow> string" where
  "lookup_tag D k = (case map_of D (placeholder k) of Some v \<Rightarrow> v | None \<Rightarrow> [])"

lemma update_fresh: "k \<notin> fst ` set al \<Longrightarrow> AList.update k v al = al @ [(k, v)]"
  by (induction al) auto

lemma dict_ok_distinct: "dict_ok D c \<Longrightarrow> distinct (map fst D)"
  by (auto simp: dict_ok_def distinct_map inj_on_def dest: placeholder_inj)

lemma dict_ok_keys: "dict_ok D c \<Longrightarrow> fst ` set D = placeholder ` {1..<c}"
proof -
  assume "dict_ok D c"
  then have "set (map fst D) = set (map placeholder [1..<c])" by (simp add: dict_ok_def)
  then show ?thesis by simp
qed

lemma dict_ok_length: "dict_ok D c \<Longrightarrow> length D = c - 1"
proof -
  assume "dict_ok D c"
  then have "length (map fst D) = length (map placeholder [1..<c])" by (simp add: dict_ok_def)
  then show ?thesis by simp
qed

lemma replacement_inv:
  assumes ok: "dict_ok D c" and rep: "replacement m (D, c) = (rep, (D', c'))"
  shows "dict_ok D' c' \<and> (\<exists>E. D' = D @ E)
         \<and> (\<exists>k. rep = placeholder k \<and> 1 \<le> k \<and> k < c' \<and> map_of D' (placeholder k) = Some m)"
proof (cases "m \<in> set (map snd D)")
  case False
  have fresh: "placeholder c \<notin> fst ` set D"
    using dict_ok_keys [OF ok] by (auto dest: placeholder_inj)
  from False rep have r: "rep = placeholder c" "c' = c + 1"
    "D' = D @ [(placeholder c, m)]"
    by (auto simp: replacement_def Let_def update_fresh [OF fresh])
  have 1: "dict_ok D' c'" using ok r by (simp add: dict_ok_def)
  have 3: "map_of D' (placeholder c) = Some m"
    using fresh r by (simp add: map_add_def map_of_eq_None_iff [THEN iffD2])
  have "rep = placeholder c \<and> 1 \<le> c \<and> c < c' \<and> map_of D' (placeholder c) = Some m"
    using r ok 3 by (simp add: dict_ok_def)
  then have 4: "\<exists>k. rep = placeholder k \<and> 1 \<le> k \<and> k < c' \<and> map_of D' (placeholder k) = Some m"
    by blast
  have 5: "\<exists>E. D' = D @ E" using r by blast
  from 1 4 5 show ?thesis by blast
next
  case True
  let ?P = "\<lambda>(existing_id, existing_tag). existing_tag = m"
  from True have "find ?P D \<noteq> None"
    by (auto simp: find_None_iff)
  then obtain key v where f: "find ?P D = Some (key, v)" by auto
  have fs: "find Q xs = Some x \<Longrightarrow> Q x \<and> x \<in> set xs" for Q and xs :: tag_dict and x
    by (induction xs) (auto split: if_splits)
  from fs [OF f] have mem: "(key, v) \<in> set D" and v: "v = m" by auto
  from True rep have r: "rep = key" "D' = D" "c' = c"
    by (simp_all add: replacement_def f)
  from mem have "key \<in> fst ` set D" by force
  with dict_ok_keys [OF ok] obtain k where k: "key = placeholder k" "1 \<le> k" "k < c"
    by auto
  have "map_of D (placeholder k) = Some m"
    using mem v k dict_ok_distinct [OF ok] by simp
  with r k ok show ?thesis by blast
qed

definition sub_ok :: "tag_dict \<times> nat \<Rightarrow> string \<Rightarrow> string \<times> (tag_dict \<times> nat) \<Rightarrow> bool" where
  "sub_ok st s res =
     (dict_ok (fst (snd res)) (snd (snd res))
      \<and> (\<exists>E. fst (snd res) = fst st @ E)
      \<and> (\<exists>items. render items = fst res
            \<and> refs items \<subseteq> {1..<snd (snd res)}
            \<and> render (resolve (lookup_tag (fst (snd res))) UNIV items) = s))"

lemma resolve_cong:
  "\<forall>k\<in>refs items. f k = g k \<Longrightarrow> resolve f K items = resolve g K items"
proof (induction items)
  case Nil then show ?case by simp
next
  case (Cons x items)
  then show ?case by (cases x) (auto simp: refs_def)
qed

lemma lookup_tag_append:
  "dict_ok D c \<Longrightarrow> 1 \<le> k \<Longrightarrow> k < c \<Longrightarrow> lookup_tag (D @ E) k = lookup_tag D k"
proof -
  assume ok: "dict_ok D c" and k: "1 \<le> k" "k < c"
  then have "placeholder k \<in> fst ` set D" using dict_ok_keys [OF ok] by auto
  then obtain v where "map_of D (placeholder k) = Some v"
    by (metis domD dom_map_of_conv_image_fst)
  then show ?thesis by (simp add: lookup_tag_def map_add_def)
qed

lemma re_sub_inv:
  "dict_ok (fst st) (snd st) \<Longrightarrow> sub_ok st s (re_sub prev s st)"
proof (induction prev s st rule: re_sub.induct)
  case (1 prev st)
  then show ?case by (auto simp: sub_ok_def refs_def intro: exI [of _ "[]"])
next
  case (2 prev c cs st)
  show ?case
  proof (cases "match_pattern prev (c # cs)")
    case None
    from "2.prems" have ih: "sub_ok st cs (re_sub (Some c) cs st)"
      by (intro "2.IH"(1) [OF None])
    obtain out st' where r: "re_sub (Some c) cs st = (out, st')" by (cases "re_sub (Some c) cs st")
    from ih r obtain items where it: "render items = out"
      "refs items \<subseteq> {1..<snd st'}" "render (resolve (lookup_tag (fst st')) UNIV items) = cs"
      by (auto simp: sub_ok_def)
    have "render (Lit c # items) = c # out"
      "refs (Lit c # items) \<subseteq> {1..<snd st'}"
      "render (resolve (lookup_tag (fst st')) UNIV (Lit c # items)) = c # cs"
      using it by (auto simp: refs_def)
    then have "\<exists>items. render items = c # out \<and> refs items \<subseteq> {1..<snd st'}
                \<and> render (resolve (lookup_tag (fst st')) UNIV items) = c # cs"
      by blast
    with ih r None show ?thesis by (simp add: sub_ok_def)
  next
    case (Some mr)
    obtain m r where mr: "mr = (m, r)" by (cases mr)
    from Some mr have split: "c # cs = m @ r" by (auto dest: match_pattern_split)
    obtain rep st1 where rp: "replacement m st = (rep, st1)" by (cases "replacement m st")
    obtain D c0 where st: "st = (D, c0)" by (cases st)
    obtain D1 c1 where st1: "st1 = (D1, c1)" by (cases st1)
    from replacement_inv [of D c0 m rep D1 c1] "2.prems" rp st st1
    obtain E1 k where r1: "dict_ok D1 c1" "D1 = D @ E1" "rep = placeholder k"
      "1 \<le> k" "k < c1" "map_of D1 (placeholder k) = Some m"
      by auto
    have ih: "sub_ok st1 r (re_sub (Some (last m)) r st1)"
      using "2.IH"(2) [OF Some mr [symmetric] rp [symmetric]] r1 st1 by simp
    obtain out st2 where r: "re_sub (Some (last m)) r st1 = (out, st2)"
      by (cases "re_sub (Some (last m)) r st1")
    from ih r st1 obtain E2 items where it: "dict_ok (fst st2) (snd st2)"
      "fst st2 = D1 @ E2" "render items = out"
      "refs items \<subseteq> {1..<snd st2}" "render (resolve (lookup_tag (fst st2)) UNIV items) = r"
      by (auto simp: sub_ok_def)
    have "length (fst st2) = length D1 + length E2" using it(2) by simp
    moreover have "1 \<le> c1" "1 \<le> snd st2" using r1(1) it(1) by (simp_all add: dict_ok_def)
    ultimately have le: "c1 \<le> snd st2"
      using dict_ok_length [OF r1(1)] dict_ok_length [OF it(1)] by linarith
    have lk: "lookup_tag (fst st2) k = m"
      using lookup_tag_append [OF r1(1) r1(4) r1(5), of E2] r1(6) it(2)
      by (simp add: lookup_tag_def)
    have "render (Ref k # items) = rep @ out"
      "refs (Ref k # items) \<subseteq> {1..<snd st2}"
      "render (resolve (lookup_tag (fst st2)) UNIV (Ref k # items)) = c # cs"
      using it r1 le lk split by (auto simp: refs_def)
    then have "\<exists>items. render items = rep @ out \<and> refs items \<subseteq> {1..<snd st2}
                \<and> render (resolve (lookup_tag (fst st2)) UNIV items) = c # cs"
      by blast
    moreover have "\<exists>E. fst st2 = fst st @ E" using it(2) r1(2) st by simp
    ultimately show ?thesis using Some mr rp r it(1) by (simp add: sub_ok_def)
  qed
qed

text \<open>
  C1 (as amended): for every input text in which no placeholder token \<open>{{tag_N}}\<close> occurs,
  restoring the masked text produced by \<open>extract_html_tags\<close> with the dictionary produced
  by that same extraction yields the original text.
\<close>

theorem restore_extract_roundtrip:
  assumes "placeholders_of t = []"
  shows "(case extract_html_tags t of (masked, tag_dict) \<Rightarrow> restore_img_tags masked tag_dict) = Inr t"
proof -
  obtain out D c where r: "re_sub None t ([], 1) = (out, (D, c))"
    by (cases "re_sub None t ([], 1)") auto
  have "sub_ok ([], 1) t (re_sub None t ([], 1))"
    by (intro re_sub_inv) (auto simp: dict_ok_def)
  with r obtain items where ok: "dict_ok D c" and it: "render items = out"
    "refs items \<subseteq> {1..<c}" "render (resolve (lookup_tag D) UNIV items) = t"
    by (auto simp: sub_ok_def)
  let ?f = "lookup_tag D"
  have keys: "map fst D = map placeholder [1..<c]" using ok by (simp add: dict_ok_def)
  have fi: "map (\<lambda>(tag_id, tag). the (first_int tag_id)) D = [1..<c]"
  proof -
    have "map (\<lambda>(tag_id, tag). the (first_int tag_id)) D = map (\<lambda>x. the (first_int x)) (map fst D)"
      by (simp add: case_prod_unfold)
    also have "\<dots> = [1..<c]" unfolding keys by (simp add: first_int_placeholder o_def)
    finally show ?thesis .
  qed
  have noerr: "\<not> list_ex (\<lambda>(tag_id, tag). first_int tag_id = None) D"
    using dict_ok_keys [OF ok] by (force simp: list_ex_iff first_int_placeholder)
  have srt: "sort_key (\<lambda>(tag_id, tag). the (first_int tag_id)) D = D"
    by (rule sort_key_id_if_sorted) (simp add: fi)
  have ent: "\<forall>e\<in>set D. \<exists>k. e = (placeholder k, ?f k)"
  proof
    fix e assume e: "e \<in> set D"
    then have "fst e \<in> placeholder ` {1..<c}" using dict_ok_keys [OF ok] by auto
    then obtain k where k: "fst e = placeholder k" by auto
    have "map_of D (fst e) = Some (snd e)"
      using e dict_ok_distinct [OF ok] by simp
    with k have "e = (placeholder k, ?f k)" by (simp add: lookup_tag_def prod_eq_iff)
    then show "\<exists>k. e = (placeholder k, ?f k)" ..
  qed
  have np: "no_ph (render (resolve ?f UNIV items))"
    using assms it(3) by (simp add: no_ph_placeholders_of)
  have sub: "refs items \<subseteq> {} \<union> {k. placeholder k \<in> fst ` set D}"
    using it(2) dict_ok_keys [OF ok] by auto
  have "fold (\<lambda>(tag_id, tag) t. str_replace t tag_id tag) D (render (resolve ?f {} items))
          = render (resolve ?f ({} \<union> {k. placeholder k \<in> fst ` set D}) items)"
    using ent np by (rule fold_restore)
  also have "\<dots> = t" using resolve_cong_refs [OF sub, of ?f] it(3) by simp
  finally have "fold (\<lambda>(tag_id, tag) t. str_replace t tag_id tag) D out = t"
    using it(1) by simp
  with r noerr srt show ?thesis
    by (simp add: extract_html_tags_def restore_img_tags_def)
qed

theorem restore_extract_roundtrip_witness:
  "placeholders_of (''Hello {<b>world</b>}'' @ [CHR 0x0A]) = []
   \<and> (case extract_html_tags (''Hello {<b>world</b>}'' @ [CHR 0x0A]) of
          (masked, tag_dict) \<Rightarrow> restore_img_tags masked tag_dict)
       = Inr (''Hello {<b>world</b>}'' @ [CHR 0x0A])"
proof -
  have h: "placeholders_of (''Hello {<b>world</b>}'' @ [CHR 0x0A]) = []" by code_simp
  from restore_extract_roundtrip [OF h] h show ?thesis by blast
qed

text \<open>
  C1 as stated fails: the text \<open><{{tag_2}}>\<close> followed by a newline consists of one
  bracket span and one newline, yet restoring its extraction gives \<open><\<close>, newline,
  \<open>>\<close>, newline: the second replacement rewrites the placeholder-like text inside the
  first restored span.
\<close>

theorem restore_extract_counterexample:
  "(case extract_html_tags (''<{{tag_2}}>'' @ [CHR 0x0A]) of
      (masked, tag_dict) \<Rightarrow> restore_img_tags masked tag_dict)
     = Inr (''<'' @ [CHR 0x0A] @ ''>'' @ [CHR 0x0A])
   \<and> ''<'' @ [CHR 0x0A] @ ''>'' @ [CHR 0x0A] \<noteq> ''<{{tag_2}}>'' @ [CHR 0x0A]"
  by code_simp

section \<open>Scenario: \<open>Hello <b>world</b>\<close> and a newline\<close>

text \<open>
  C7 (as amended): for the input \<open>Hello <b>world</b>\<close> followed by a newline,
  \<open>extract_html_tags\<close> yields a dictionary of exactly 3 placeholders: the opening tag, the
  closing tag and the newline.
\<close>

theorem extract_scenario:
  "extract_html_tags (''Hello <b>world</b>'' @ [CHR 0x0A])
     = (''Hello {{tag_1}}world{{tag_2}}{{tag_3}}'',
        [(''{{tag_1}}'', ''<b>''), (''{{tag_2}}'', ''</b>''), (''{{tag_3}}'', [CHR 0x0A])])
   \<and> length (snd (extract_html_tags (''Hello <b>world</b>'' @ [CHR 0x0A]))) = 3"
  by code_simp

text \<open>C7 as stated fails: the dictionary does not have exactly 2 entries.\<close>

theorem extract_scenario_counterexample:
  "length (snd (extract_html_tags (''Hello <b>world</b>'' @ [CHR 0x0A]))) \<noteq> 2"
  by code_simp

section \<open>Chunker: placeholders stay whole\<close>

subsection \<open>Stripping and splitting\<close>

lemma match_placeholder_not_brace: "c \<noteq> CHR ''{'' \<Longrightarrow> match_placeholder (c # cs) = None"
  by (simp add: match_placeholder_def)

lemma is_space_not_brace: "is_space c \<Longrightarrow> c \<noteq> CHR ''{'' \<and> c \<noteq> CHR ''}''"
  by (auto simp: is_space_def)

lemma placeholders_of_no_open: "CHR ''{'' \<notin> set w \<Longrightarrow> placeholders_of w = []"
  by (induction w) (auto simp: match_placeholder_not_brace)

lemma placeholders_of_dropWhile_space:
  "placeholders_of (dropWhile is_space s) = placeholders_of s"
  by (induction s) (auto simp: match_placeholder_not_brace dest: is_space_not_brace)

lemma placeholders_of_append_no_close:
  "CHR ''}'' \<notin> set w \<Longrightarrow> placeholders_of (s @ w) = placeholders_of s @ placeholders_of w"
proof (induction s rule: placeholders_of.induct)
  case 1
  show ?case by simp
next
  case (2 c cs)
  show ?case
  proof (cases "match_placeholder (c # cs)")
    case (Some mr)
    obtain m r where mr: "mr = (m, r)" by (cases mr)
    from match_placeholder_SomeD [of "c # cs" m r] Some mr
    have m: "is_ph m" and s: "c # cs = m @ r" by auto
    have ext: "match_placeholder ((c # cs) @ w) = Some (m, r @ w)"
      using match_placeholder_ph [OF m, of "r @ w"] s by simp
    from "2.IH"(2) [OF Some mr [symmetric] "2.prems"] Some mr ext show ?thesis by simp
  next
    case None
    have n2: "match_placeholder ((c # cs) @ w) = None"
    proof (rule ccontr)
      assume "match_placeholder ((c # cs) @ w) \<noteq> None"
      then obtain m r' where "match_placeholder ((c # cs) @ w) = Some (m, r')" by auto
      from match_placeholder_SomeD [OF this] have m: "is_ph m" and e: "(c # cs) @ w = m @ r'"
        by auto
      from e obtain us where "(c # cs = m @ us \<and> us @ w = r') \<or> ((c # cs) @ us = m \<and> w = us @ r')"
        unfolding append_eq_append_conv2 by blast
      then show False
      proof
        assume "c # cs = m @ us \<and> us @ w = r'"
        with match_placeholder_ph [OF m, of us] None show False by simp
      next
        assume a: "(c # cs) @ us = m \<and> w = us @ r'"
        show False
        proof (cases "us = []")
          case True
          with a match_placeholder_ph [OF m, of "[]"] None show False by simp
        next
          case False
          from m obtain p where "m = p @ ''}}''" by (rule is_ph_close)
          then have "last m = CHR ''}''" by simp
          moreover have "last m = last us" using a False by (metis last_appendR)
          ultimately have "CHR ''}'' \<in> set us" using False by (metis last_in_set)
          with a "2.prems" show False by auto
        qed
      qed
    qed
    from "2.IH"(1) [OF None "2.prems"] None n2 show ?thesis by simp
  qed
qed

lemma placeholders_of_strip: "placeholders_of (strip s) = placeholders_of s"
proof -
  let ?t = "dropWhile is_space s"
  let ?w = "rev (takeWhile is_space (rev ?t))"
  have "?t = rev (dropWhile is_space (rev ?t)) @ rev (takeWhile is_space (rev ?t))"
    by (metis rev_append rev_rev_ident takeWhile_dropWhile_id)
  then have t: "?t = strip s @ ?w" by (simp add: strip_def)
  have sp: "\<forall>c\<in>set ?w. is_space c" by (auto dest: set_takeWhileD)
  then have w: "CHR ''}'' \<notin> set ?w" "CHR ''{'' \<notin> set ?w"
    using is_space_not_brace by blast+
  have "placeholders_of s = placeholders_of ?t" by (simp add: placeholders_of_dropWhile_space)
  also have "\<dots> = placeholders_of (strip s @ ?w)" using t by simp
  also have "\<dots> = placeholders_of (strip s)"
    using placeholders_of_append_no_close [OF w(1)] placeholders_of_no_open [OF w(2)] by simp
  finally show ?thesis by simp
qed

text \<open>The parts of \<open>re.split\<close>: texts without a placeholder alternate with placeholders.\<close>

fun alt_parts :: "bool \<Rightarrow> string list \<Rightarrow> bool" where
  "alt_parts b [] = (\<not> b)"
| "alt_parts b (p # ps) =
     (if b then placeholders_of p = [] \<and> alt_parts False ps else is_ph p \<and> alt_parts True ps)"

definition no_match_in :: "string \<Rightarrow> string \<Rightarrow> bool" where
  "no_match_in cur s = (\<forall>u v. cur = u @ v \<and> v \<noteq> [] \<longrightarrow> match_placeholder (v @ s) = None)"

lemma no_match_in_plain: "no_match_in cur s \<Longrightarrow> placeholders_of cur = []"
proof (induction cur)
  case Nil
  show ?case by simp
next
  case (Cons c cur)
  have "match_placeholder ((c # cur) @ s) = None"
    using Cons.prems unfolding no_match_in_def by blast
  then have n: "match_placeholder (c # cur) = None" by (rule match_placeholder_None_prefix)
  have "no_match_in cur s" unfolding no_match_in_def
  proof (intro allI impI)
    fix u v assume "cur = u @ v \<and> v \<noteq> []"
    then have "c # cur = (c # u) @ v \<and> v \<noteq> []" by simp
    with Cons.prems show "match_placeholder (v @ s) = None" unfolding no_match_in_def by blast
  qed
  with Cons.IH n show ?case by simp
qed

lemma no_match_in_snoc:
  assumes "no_match_in cur (c # cs)" "match_placeholder (c # cs) = None"
  shows "no_match_in (cur @ [c]) cs"
  unfolding no_match_in_def
proof (intro allI impI)
  fix u v assume a: "cur @ [c] = u @ v \<and> v \<noteq> []"
  then obtain v' where v: "v = v' @ [c]" "cur = u @ v'"
    by (cases v rule: rev_cases) auto
  show "match_placeholder (v @ cs) = None"
  proof (cases "v' = []")
    case True with v assms(2) show ?thesis by simp
  next
    case False
    with assms(1) v(2) have "match_placeholder (v' @ c # cs) = None"
      unfolding no_match_in_def by blast
    with v show ?thesis by simp
  qed
qed

lemma re_split_alt: "no_match_in cur s \<Longrightarrow> alt_parts True (re_split cur s)"
proof (induction cur s rule: re_split.induct)
  case (1 cur)
  then show ?case by (simp add: no_match_in_plain)
next
  case (2 cur c cs)
  show ?case
  proof (cases "match_placeholder (c # cs)")
    case None
    from "2.IH"(1) [OF None no_match_in_snoc [OF "2.prems" None]] None show ?thesis by simp
  next
    case (Some mr)
    obtain m r where mr: "mr = (m, r)" by (cases mr)
    from match_placeholder_SomeD [of "c # cs" m r] Some mr have m: "is_ph m" by auto
    have "no_match_in [] r" by (simp add: no_match_in_def)
    from "2.IH"(2) [OF Some mr [symmetric] this] Some mr m no_match_in_plain [OF "2.prems"]
    show ?thesis by simp
  qed
qed

lemma placeholders_of_ph: "is_ph m \<Longrightarrow> placeholders_of (m @ r) = m # placeholders_of r"
proof -
  assume m: "is_ph m"
  then obtain body where "m = CHR ''{'' # CHR ''{'' # CHR ''t'' # body" by (rule is_ph_shape)
  then obtain c cs where "m @ r = c # cs" by simp
  with match_placeholder_ph [OF m, of r] show ?thesis by simp
qed

lemma re_split_placeholders:
  "no_match_in cur s \<Longrightarrow> concat (map placeholders_of (re_split cur s)) = placeholders_of s"
proof (induction cur s rule: re_split.induct)
  case (1 cur)
  then show ?case by (simp add: no_match_in_plain)
next
  case (2 cur c cs)
  show ?case
  proof (cases "match_placeholder (c # cs)")
    case None
    from "2.IH"(1) [OF None no_match_in_snoc [OF "2.prems" None]] None show ?thesis by simp
  next
    case (Some mr)
    obtain m r where mr: "mr = (m, r)" by (cases mr)
    from match_placeholder_SomeD [of "c # cs" m r] Some mr have m: "is_ph m" by auto
    have "no_match_in [] r" by (simp add: no_match_in_def)
    from "2.IH"(2) [OF Some mr [symmetric] this] Some mr
      placeholders_of_ph [OF m, of "[]"] no_match_in_plain [OF "2.prems"]
    show ?thesis by simp
  qed
qed

subsection \<open>The loop over the parts\<close>

lemma is_ph_tag1: "is_ph ''{{tag_1}}''"
  unfolding is_ph_def by (intro exI [of _ "''1''"]) (simp add: is_digit_def)

lemma placeholders_of_tag1: "placeholders_of (''{{tag_1}}'' @ r) = ''{{tag_1}}'' # placeholders_of r"
  by (rule placeholders_of_ph [OF is_ph_tag1])

lemma suffix_tag1_take:
  "suffix ''{{tag_1}}'' cur \<Longrightarrow> cur = take (length cur - 9) cur @ ''{{tag_1}}''"
  by (auto simp: suffix_def)

lemma placeholders_of_before_tag1:
  "placeholders_of (x @ ''{{tag_1}}'') = placeholders_of x @ [''{{tag_1}}'']"
proof -
  have "starts_ph ''{{tag_1}}''"
    unfolding starts_ph_def using is_ph_tag1 by (intro exI [of _ "''{{tag_1}}''"] exI [of _ "[]"]) simp
  then have "placeholders_of (x @ ''{{tag_1}}'') = placeholders_of x @ placeholders_of ''{{tag_1}}''"
    by (intro placeholders_of_append) simp
  with placeholders_of_tag1 [of "[]"] show ?thesis by simp
qed

lemma chunk_step_placeholders:
  assumes "cur = [] \<or> ends_ph cur \<or> starts_ph p"
    and "chunk_step ct mx (chunks, cur, len) p = (chunks1, cur1, len1)"
  shows "concat (map placeholders_of chunks1) @ placeholders_of cur1
           = concat (map placeholders_of chunks) @ placeholders_of cur @ placeholders_of p"
proof (cases "p = []")
  case True
  with assms(2) show ?thesis by (simp add: chunk_step_def)
next
  case False
  show ?thesis
  proof (cases "9 * mx < 10 * int (len + ct p)")
    case over: True
    show ?thesis
    proof (cases "suffix ''{{tag_1}}'' cur")
      case True
      let ?x = "take (length cur - 9) cur"
      from assms(2) False over True have r: "chunks1 = chunks @ [strip ?x]"
        "cur1 = ''{{tag_1}}'' @ p"
        by (simp_all add: chunk_step_def Let_def)
      have "placeholders_of cur = placeholders_of ?x @ [''{{tag_1}}'']"
        using suffix_tag1_take [OF True] placeholders_of_before_tag1 [of ?x] by simp
      moreover have "placeholders_of cur1 = ''{{tag_1}}'' # placeholders_of p"
        unfolding r(2) by (rule placeholders_of_tag1)
      ultimately show ?thesis
        using r(1) by (simp add: placeholders_of_strip del: placeholders_of.simps)
    next
      case False2: False
      from assms(2) False over False2 have "chunks1 = chunks @ [strip cur]" "cur1 = p"
        by (simp_all add: chunk_step_def Let_def)
      then show ?thesis by (simp add: placeholders_of_strip)
    qed
  next
    case under: False
    from assms(2) False under have "chunks1 = chunks" "cur1 = cur @ p"
      by (simp_all add: chunk_step_def Let_def)
    with placeholders_of_append [OF assms(1)] show ?thesis by simp
  qed
qed

lemma chunk_step_current:
  assumes "chunk_step ct mx (chunks, cur, len) p = (chunks1, cur1, len1)"
  shows "if p = [] then cur1 = cur else suffix p cur1"
  using assms by (auto simp: chunk_step_def Let_def suffix_def split: if_splits)

lemma chunk_loop_placeholders:
  assumes "alt_parts b ps" "cur = [] \<or> ends_ph cur \<or> \<not> b"
    and "chunk_loop ct mx (chunks, cur, len) ps = (chunks', cur', len')"
  shows "concat (map placeholders_of chunks') @ placeholders_of cur'
           = concat (map placeholders_of chunks) @ placeholders_of cur
               @ concat (map placeholders_of ps)"
  using assms
proof (induction ps arbitrary: b chunks cur len)
  case Nil
  then show ?case by simp
next
  case (Cons p ps)
  obtain chunks1 cur1 len1 where st: "chunk_step ct mx (chunks, cur, len) p = (chunks1, cur1, len1)"
    by (cases "chunk_step ct mx (chunks, cur, len) p") auto
  have ph: "\<not> b \<Longrightarrow> is_ph p" using Cons.prems(1) by simp
  have join: "cur = [] \<or> ends_ph cur \<or> starts_ph p"
  proof (cases b)
    case True with Cons.prems(2) show ?thesis by blast
  next
    case False
    with ph have "p = p @ [] \<and> is_ph p" by simp
    then show ?thesis unfolding starts_ph_def by blast
  qed
  have one: "concat (map placeholders_of chunks1) @ placeholders_of cur1
           = concat (map placeholders_of chunks) @ placeholders_of cur @ placeholders_of p"
    using join st by (rule chunk_step_placeholders)
  have alt: "alt_parts (\<not> b) ps" using Cons.prems(1) by (simp split: if_splits)
  have inv: "cur1 = [] \<or> ends_ph cur1 \<or> \<not> \<not> b"
  proof (cases b)
    case True then show ?thesis by simp
  next
    case False
    with ph have p: "is_ph p" by simp
    then have "p \<noteq> []" by (auto simp: is_ph_def)
    with chunk_step_current [OF st] have "suffix p cur1" by simp
    with p have "ends_ph cur1" by (auto simp: ends_ph_def suffix_def)
    then show ?thesis by simp
  qed
  from Cons.prems(3) st have "chunk_loop ct mx (chunks1, cur1, len1) ps = (chunks', cur', len')"
    by simp
  from Cons.IH [OF alt inv this] one show ?case by simp
qed

text \<open>
  C6: for every input text, tokenizer and configured maximum, the placeholders found in the
  chunks of \<open>split_text_into_chunks_with_tags\<close>, chunk after chunk, are exactly the
  placeholders of the text, in the same order: every placeholder occurrence appears whole
  in exactly one chunk, and none is split across two chunks.
\<close>

theorem chunks_keep_placeholders:
  "concat (map placeholders_of (split_text_into_chunks_with_tags count_tokens text max_tokens))
     = placeholders_of text"
proof -
  obtain chunks cur len where
    l: "chunk_loop count_tokens max_tokens ([], [], 0) (re_split [] text) = (chunks, cur, len)"
    by (cases "chunk_loop count_tokens max_tokens ([], [], 0) (re_split [] text)") auto
  have nm: "no_match_in [] text" by (simp add: no_match_in_def)
  have "concat (map placeholders_of chunks) @ placeholders_of cur
          = concat (map placeholders_of []) @ placeholders_of []
              @ concat (map placeholders_of (re_split [] text))"
    using re_split_alt [OF nm] _ l by (rule chunk_loop_placeholders) simp
  then have eq: "concat (map placeholders_of chunks) @ placeholders_of cur = placeholders_of text"
    by (simp add: re_split_placeholders [OF nm])
  show ?thesis
  proof (cases "strip cur = []")
    case True
    then have "placeholders_of (strip cur) = []" by simp
    then have "placeholders_of cur = []" by (simp add: placeholders_of_strip)
    with eq l True show ?thesis by (simp add: split_text_into_chunks_with_tags_def)
  next
    case False
    with eq l show ?thesis
      by (simp add: split_text_into_chunks_with_tags_def placeholders_of_strip)
  qed
qed

section \<open>Chunker: token bound of a chunk\<close>

text \<open>
  The loop bounds the running sum of the token counts of the pieces it adds to the current
  chunk, each counted on its own; it never counts the tokens of the chunk as a whole. A
  piece is a part of the text, or the placeholder \<open>{{tag_1}}\<close> moved from the chunk before
  followed by a part, the two counted together. A chunk is the stripped concatenation of
  its pieces, or of that text without a trailing \<open>{{tag_1}}\<close>, which moves on to the next
  chunk.
\<close>

definition chunk_piece :: "string list \<Rightarrow> string \<Rightarrow> bool" where
  "chunk_piece parts q = (q \<in> set parts \<or> (\<exists>p\<in>set parts. q = ''{{tag_1}}'' @ p))"

definition chunk_text :: "string list \<Rightarrow> string \<Rightarrow> bool" where
  "chunk_text pieces c =
     (c = strip (concat pieces)
      \<or> (suffix ''{{tag_1}}'' (concat pieces)
           \<and> c = strip (take (length (concat pieces) - 9) (concat pieces))))"

definition counted_within :: "(string \<Rightarrow> nat) \<Rightarrow> int \<Rightarrow> string list \<Rightarrow> bool" where
  "counted_within ct mx pieces =
     (10 * int (sum_list (map ct pieces)) \<le> 9 * mx \<or> length pieces \<le> 1)"

definition bounded_chunk :: "(string \<Rightarrow> nat) \<Rightarrow> int \<Rightarrow> string list \<Rightarrow> string \<Rightarrow> bool" where
  "bounded_chunk ct mx parts c =
     (\<exists>pieces. (\<forall>q\<in>set pieces. chunk_piece parts q) \<and> chunk_text pieces c
        \<and> counted_within ct mx pieces)"

definition chunk_inv :: "(string \<Rightarrow> nat) \<Rightarrow> int \<Rightarrow> string list \<Rightarrow> chunk_state \<Rightarrow> bool" where
  "chunk_inv ct mx parts st =
     (case st of (chunks, cur, len) \<Rightarrow>
        (\<forall>c\<in>set chunks. bounded_chunk ct mx parts c)
        \<and> (\<exists>pieces. (\<forall>q\<in>set pieces. chunk_piece parts q) \<and> cur = concat pieces
              \<and> len = sum_list (map ct pieces) \<and> counted_within ct mx pieces))"

lemma chunk_step_inv:
  assumes inv: "chunk_inv ct mx parts st" and p: "p \<in> set parts"
  shows "chunk_inv ct mx parts (chunk_step ct mx st p)"
proof -
  obtain chunks cur len where st: "st = (chunks, cur, len)" by (cases st)
  from inv st obtain pieces where g: "\<forall>c\<in>set chunks. bounded_chunk ct mx parts c"
    and ps: "\<forall>q\<in>set pieces. chunk_piece parts q" and cur: "cur = concat pieces"
    and len: "len = sum_list (map ct pieces)" and cw: "counted_within ct mx pieces"
    by (auto simp: chunk_inv_def)
  have one: "\<And>q. chunk_piece parts q \<Longrightarrow>
               \<exists>pieces. (\<forall>q\<in>set pieces. chunk_piece parts q) \<and> q = concat pieces
                 \<and> ct q = sum_list (map ct pieces) \<and> counted_within ct mx pieces"
  proof -
    fix q assume "chunk_piece parts q"
    then have "(\<forall>x\<in>set [q]. chunk_piece parts x) \<and> q = concat [q]
                 \<and> ct q = sum_list (map ct [q]) \<and> counted_within ct mx [q]"
      by (simp add: counted_within_def)
    then show "\<exists>pieces. (\<forall>q\<in>set pieces. chunk_piece parts q) \<and> q = concat pieces
                 \<and> ct q = sum_list (map ct pieces) \<and> counted_within ct mx pieces"
      by blast
  qed
  show ?thesis
  proof (cases "p = []")
    case True
    with inv st show ?thesis by (simp add: chunk_step_def)
  next
    case pne: False
    show ?thesis
    proof (cases "9 * mx < 10 * int (len + ct p)")
      case under: False
      have "(\<forall>q\<in>set (pieces @ [p]). chunk_piece parts q) \<and> cur @ p = concat (pieces @ [p])
              \<and> len + ct p = sum_list (map ct (pieces @ [p]))
              \<and> counted_within ct mx (pieces @ [p])"
        using ps p cur len under by (simp add: chunk_piece_def counted_within_def)
      then have "\<exists>pieces. (\<forall>q\<in>set pieces. chunk_piece parts q) \<and> cur @ p = concat pieces
              \<and> len + ct p = sum_list (map ct pieces) \<and> counted_within ct mx pieces"
        by blast
      with under g st pne show ?thesis by (simp add: chunk_step_def chunk_inv_def Let_def)
    next
      case over: True
      show ?thesis
      proof (cases "suffix ''{{tag_1}}'' cur")
        case False
        have "chunk_text pieces (strip cur)" using cur by (simp add: chunk_text_def)
        with ps cw have "bounded_chunk ct mx parts (strip cur)"
          unfolding bounded_chunk_def by blast
        moreover have "chunk_piece parts p" using p by (simp add: chunk_piece_def)
        ultimately show ?thesis
          using False over g st pne one [of p]
          by (simp add: chunk_step_def chunk_inv_def Let_def)
      next
        case True
        have "chunk_text pieces (strip (take (length cur - 9) cur))"
          using cur True by (simp add: chunk_text_def)
        with ps cw have "bounded_chunk ct mx parts (strip (take (length cur - 9) cur))"
          unfolding bounded_chunk_def by blast
        moreover have "chunk_piece parts (''{{tag_1}}'' @ p)"
          using p unfolding chunk_piece_def by blast
        ultimately show ?thesis
          using True over g st pne one [of "''{{tag_1}}'' @ p"]
          by (simp add: chunk_step_def chunk_inv_def Let_def)
      qed
    qed
  qed
qed

lemma chunk_loop_inv:
  "chunk_inv ct mx parts st \<Longrightarrow> set ps \<subseteq> set parts \<Longrightarrow>
   chunk_inv ct mx parts (chunk_loop ct mx st ps)"
proof (induction ps arbitrary: st)
  case Nil
  then show ?case by simp
next
  case (Cons p ps)
  from Cons.prems have "chunk_inv ct mx parts (chunk_step ct mx st p)"
    by (intro chunk_step_inv) auto
  with Cons.IH [of "chunk_step ct mx st p"] Cons.prems(2) show ?case by simp
qed

text \<open>
  C5 (as amended): for every input text, tokenizer and configured maximum, every chunk
  produced by \<open>split_text_into_chunks_with_tags\<close> is the stripped concatenation of pieces
  (or of that text without a trailing \<open>{{tag_1}}\<close>), each piece a part of the text or the
  moved placeholder \<open>{{tag_1}}\<close> followed by a part, such that the token counts of the
  pieces, each counted on its own, sum to at most 90% of the maximum, except a chunk made
  of at most one piece.
\<close>

theorem chunk_token_bound:
  assumes "c \<in> set (split_text_into_chunks_with_tags count_tokens text max_tokens)"
  shows "\<exists>pieces.
           (\<forall>q\<in>set pieces. q \<in> set (re_split [] text)
                              \<or> (\<exists>p\<in>set (re_split [] text). q = ''{{tag_1}}'' @ p))
           \<and> (c = strip (concat pieces)
                \<or> (suffix ''{{tag_1}}'' (concat pieces)
                     \<and> c = strip (take (length (concat pieces) - 9) (concat pieces))))
           \<and> (10 * int (sum_list (map count_tokens pieces)) \<le> 9 * max_tokens
                \<or> length pieces \<le> 1)"
proof -
  let ?parts = "re_split [] text"
  obtain chunks cur len where
    l: "chunk_loop count_tokens max_tokens ([], [], 0) ?parts = (chunks, cur, len)"
    by (cases "chunk_loop count_tokens max_tokens ([], [], 0) ?parts") auto
  have "chunk_inv count_tokens max_tokens ?parts ([], [], 0)"
    by (auto simp: chunk_inv_def counted_within_def intro!: exI [of _ "[]"])
  then have "chunk_inv count_tokens max_tokens ?parts
               (chunk_loop count_tokens max_tokens ([], [], 0) ?parts)"
    by (intro chunk_loop_inv) auto
  with l obtain pieces where g: "\<forall>c\<in>set chunks. bounded_chunk count_tokens max_tokens ?parts c"
    and ps: "\<forall>q\<in>set pieces. chunk_piece ?parts q" and cur: "cur = concat pieces"
    and cw: "counted_within count_tokens max_tokens pieces"
    by (auto simp: chunk_inv_def)
  have "chunk_text pieces (strip cur)" using cur by (simp add: chunk_text_def)
  with ps cw have last: "bounded_chunk count_tokens max_tokens ?parts (strip cur)"
    unfolding bounded_chunk_def by blast
  from assms l have "c \<in> set chunks \<or> c = strip cur"
    by (auto simp: split_text_into_chunks_with_tags_def split: if_splits)
  with g last have "bounded_chunk count_tokens max_tokens ?parts c" by auto
  then show ?thesis
    unfolding bounded_chunk_def chunk_piece_def chunk_text_def counted_within_def .
qed

theorem chunk_token_bound_witness:
  "''x'' \<in> set (split_text_into_chunks_with_tags length ''x{{tag_1}}yyyyyyyyyy'' 20)
   \<and> (\<exists>pieces.
           (\<forall>q\<in>set pieces. q \<in> set (re_split [] ''x{{tag_1}}yyyyyyyyyy'')
                \<or> (\<exists>p\<in>set (re_split [] ''x{{tag_1}}yyyyyyyyyy''). q = ''{{tag_1}}'' @ p))
           \<and> (''x'' = strip (concat pieces)
                \<or> (suffix ''{{tag_1}}'' (concat pieces)
                     \<and> ''x'' = strip (take (length (concat pieces) - 9) (concat pieces))))
           \<and> (10 * int (sum_list (map length pieces)) \<le> 9 * 20 \<or> length pieces \<le> 1))"
proof -
  have 1: "''x'' \<in> set (split_text_into_chunks_with_tags length ''x{{tag_1}}yyyyyyyyyy'' 20)"
    by code_simp
  from chunk_token_bound [OF 1] 1 show ?thesis by blast
qed

text \<open>
  C5 as stated fails: with one token per character and a maximum of 20 (threshold 18), the
  text \<open>x{{tag_1}}yyyyyyyyyy\<close> has the parts \<open>x\<close>, \<open>{{tag_1}}\<close> (9 tokens) and
  \<open>yyyyyyyyyy\<close> (10 tokens); the second chunk is the moved placeholder and the last part
  together, 19 tokens, and is not a single part.
\<close>

theorem chunk_token_bound_counterexample:
  "split_text_into_chunks_with_tags length ''x{{tag_1}}yyyyyyyyyy'' 20
     = [''x'', ''{{tag_1}}yyyyyyyyyy'']
   \<and> re_split [] ''x{{tag_1}}yyyyyyyyyy'' = [''x'', ''{{tag_1}}'', ''yyyyyyyyyy'']
   \<and> \<not> (\<forall>c\<in>set (split_text_into_chunks_with_tags length ''x{{tag_1}}yyyyyyyyyy'' 20).
          10 * int (length c) \<le> 9 * 20
          \<or> (\<exists>p\<in>set (re_split [] ''x{{tag_1}}yyyyyyyyyy''). c = strip p))"
  by code_simp

text \<open>
  The count of a chunk as a whole is not bounded by the loop: a tokenizer may count more
  tokens in a joined text than in its parts taken one by one. With the counts below and a
  maximum of 12 (threshold 10.8) the parts \<open>a\<close> and \<open>{{tag_2}}\<close> sum to 10 and are joined
  into one chunk of 12 tokens.
\<close>

definition joined_counts_more :: "string \<Rightarrow> nat" where
  "joined_counts_more s = (if s = ''a{{tag_2}}'' then 12 else length s)"

lemma chunk_count_not_additive:
  "split_text_into_chunks_with_tags joined_counts_more ''a{{tag_2}}'' 12 = [''a{{tag_2}}'']
   \<and> re_split [] ''a{{tag_2}}'' = [''a'', ''{{tag_2}}'', []]
   \<and> joined_counts_more ''a'' + joined_counts_more ''{{tag_2}}'' = 10
   \<and> joined_counts_more ''a{{tag_2}}'' = 12"
  by code_simp

section \<open>BatchRequestBuilder: numbering and budgets\<close>

definition request_name :: "nat \<Rightarrow> string" where
  "request_name n = ''request-'' @ str_of_nat n"

definition all_requests :: "pack_state \<Rightarrow> batch_request list" where
  "all_requests st = concat (map snd (written st)) @ current_batch_requests st"

definition user_content :: "batch_request \<Rightarrow> chunk" where
  "user_content r = msg_content (last (body_messages (body r)))"

text \<open>The token cost of a request as the packing loop counts it: the system message, the
  encoded user text and the fixed overhead of 100.\<close>

definition request_cost :: "(string \<Rightarrow> nat) \<Rightarrow> (string \<Rightarrow> nat list) \<Rightarrow> batch_request \<Rightarrow> nat" where
  "request_cost count_tokens encode r =
     (case map msg_content (body_messages (body r)) of
        [Text sys, Text c] \<Rightarrow> count_tokens sys + length (encode c) + 100
      | _ \<Rightarrow> 0)"

definition file_ok :: "(string \<Rightarrow> nat) \<Rightarrow> (string \<Rightarrow> nat list) \<Rightarrow> int \<Rightarrow> int \<Rightarrow> batch_request list \<Rightarrow> bool" where
  "file_ok count_tokens encode max_tokens_per_batch max_requests_per_file reqs =
     (int (length reqs) \<le> max 1 max_requests_per_file
      \<and> (int (sum_list (map (request_cost count_tokens encode) reqs)) \<le> max_tokens_per_batch
           \<or> length reqs \<le> 1))"

definition ids_inv :: "pack_state \<Rightarrow> bool" where
  "ids_inv st =
     (1 \<le> global_request_id st
      \<and> map custom_id (all_requests st) = map request_name [1..<global_request_id st])"

definition budget_inv ::
  "(string \<Rightarrow> nat) \<Rightarrow> (string \<Rightarrow> nat list) \<Rightarrow> int \<Rightarrow> int \<Rightarrow> pack_state \<Rightarrow> bool" where
  "budget_inv count_tokens encode mb mf st =
     (request_count st = length (current_batch_requests st)
      \<and> current_batch_tokens st
           = sum_list (map (request_cost count_tokens encode) (current_batch_requests st))
      \<and> file_ok count_tokens encode mb mf (current_batch_requests st)
      \<and> (\<forall>f\<in>set (written st). file_ok count_tokens encode mb mf (snd f)))"

lemma request_cost_make:
  "request_cost count_tokens encode (make_request system_message n (Text s))
     = count_tokens system_message + length (encode s) + 100"
  by (simp add: request_cost_def make_request_def)

lemma pack_step_Text:
  "pack_step encode sm stk mb mf st chunk = Inr st' \<Longrightarrow> \<exists>s. chunk = Text s"
  by (cases chunk) (simp_all add: pack_step_def tokenizer_encode_def)

lemma pack_step_ids:
  assumes "pack_step encode sm stk mb mf st chunk = Inr st'" "ids_inv st"
  shows "ids_inv st' \<and> map user_content (all_requests st') = map user_content (all_requests st) @ [chunk]"
proof -
  from pack_step_Text [OF assms(1)] obtain s where c: "chunk = Text s" by blast
  let ?seal = "int (current_batch_tokens st + (stk + length (encode s) + 100)) > mb
                 \<or> int (request_count st) \<ge> mf"
  have id: "custom_id (make_request sm n ch) = request_name n" for n ch
    by (simp add: make_request_def request_name_def)
  have uc: "user_content (make_request sm n ch) = ch" for n ch
    by (simp add: make_request_def user_content_def)
  show ?thesis
  proof (cases ?seal)
    case True
    with assms(1) c have st': "st' = st\<lparr>written := write_batch st,
        current_batch_requests := [make_request sm (global_request_id st) chunk],
        current_batch_tokens := stk + length (encode s) + 100,
        request_count := 1, file_count := file_count st + 1,
        global_request_id := global_request_id st + 1\<rparr>"
      by (auto simp: pack_step_def tokenizer_encode_def Let_def)
    have "all_requests st' = all_requests st @ [make_request sm (global_request_id st) chunk]"
      by (simp add: st' all_requests_def write_batch_def)
    moreover have "global_request_id st' = Suc (global_request_id st)" by (simp add: st')
    ultimately show ?thesis using assms(2) by (simp add: ids_inv_def id uc)
  next
    case False
    with assms(1) c have st': "st' = st\<lparr>
        current_batch_requests := current_batch_requests st @ [make_request sm (global_request_id st) chunk],
        current_batch_tokens := current_batch_tokens st + (stk + length (encode s) + 100),
        request_count := request_count st + 1,
        global_request_id := global_request_id st + 1\<rparr>"
      by (auto simp: pack_step_def tokenizer_encode_def Let_def)
    have "all_requests st' = all_requests st @ [make_request sm (global_request_id st) chunk]"
      by (simp add: st' all_requests_def)
    moreover have "global_request_id st' = Suc (global_request_id st)" by (simp add: st')
    ultimately show ?thesis using assms(2) by (simp add: ids_inv_def id uc)
  qed
qed

lemma pack_step_budget:
  assumes "pack_step encode sm (count_tokens sm) mb mf st chunk = Inr st'"
    "budget_inv count_tokens encode mb mf st"
  shows "budget_inv count_tokens encode mb mf st'"
proof -
  from pack_step_Text [OF assms(1)] obtain s where c: "chunk = Text s" by blast
  let ?total = "count_tokens sm + length (encode s) + 100"
  let ?seal = "int (current_batch_tokens st + ?total) > mb \<or> int (request_count st) \<ge> mf"
  let ?r = "make_request sm (global_request_id st) chunk"
  have cost: "request_cost count_tokens encode ?r = ?total"
    using c by (simp add: request_cost_make)
  from assms(2) have rc: "request_count st = length (current_batch_requests st)"
    and tk: "current_batch_tokens st
           = sum_list (map (request_cost count_tokens encode) (current_batch_requests st))"
    and cur: "file_ok count_tokens encode mb mf (current_batch_requests st)"
    and wr: "\<forall>f\<in>set (written st). file_ok count_tokens encode mb mf (snd f)"
    by (simp_all add: budget_inv_def)
  show ?thesis
  proof (cases ?seal)
    case True
    with assms(1) c have st': "st' = st\<lparr>written := write_batch st,
        current_batch_requests := [?r],
        current_batch_tokens := ?total,
        request_count := 1, file_count := file_count st + 1,
        global_request_id := global_request_id st + 1\<rparr>"
      by (auto simp: pack_step_def tokenizer_encode_def Let_def)
    have "file_ok count_tokens encode mb mf [?r]" by (simp add: file_ok_def)
    with cur wr show ?thesis
      by (simp add: st' budget_inv_def write_batch_def cost)
  next
    case False
    with assms(1) c have st': "st' = st\<lparr>
        current_batch_requests := current_batch_requests st @ [?r],
        current_batch_tokens := current_batch_tokens st + ?total,
        request_count := request_count st + 1,
        global_request_id := global_request_id st + 1\<rparr>"
      by (auto simp: pack_step_def tokenizer_encode_def Let_def)
    from False rc tk have "file_ok count_tokens encode mb mf (current_batch_requests st @ [?r])"
      by (simp add: file_ok_def cost)
    with rc tk wr show ?thesis
      by (simp add: st' budget_inv_def cost)
  qed
qed

lemma pack_loop_ids:
  "pack_loop encode sm stk mb mf st chunks = Inr st' \<Longrightarrow> ids_inv st \<Longrightarrow>
   ids_inv st' \<and> map user_content (all_requests st') = map user_content (all_requests st) @ chunks"
proof (induction chunks arbitrary: st)
  case Nil
  then show ?case by simp
next
  case (Cons chunk chunks)
  from Cons.prems(1) obtain st1 where s1: "pack_step encode sm stk mb mf st chunk = Inr st1"
    and l: "pack_loop encode sm stk mb mf st1 chunks = Inr st'"
    by (auto split: sum.splits)
  from pack_step_ids [OF s1 Cons.prems(2)] Cons.IH [OF l] show ?case by simp
qed

lemma pack_loop_budget:
  "pack_loop encode sm (count_tokens sm) mb mf st chunks = Inr st' \<Longrightarrow>
   budget_inv count_tokens encode mb mf st \<Longrightarrow> budget_inv count_tokens encode mb mf st'"
proof (induction chunks arbitrary: st)
  case Nil
  then show ?case by simp
next
  case (Cons chunk chunks)
  from Cons.prems(1) obtain st1 where
    s1: "pack_step encode sm (count_tokens sm) mb mf st chunk = Inr st1"
    and l: "pack_loop encode sm (count_tokens sm) mb mf st1 chunks = Inr st'"
    by (auto split: sum.splits)
  from pack_step_budget [OF s1 Cons.prems(2)] Cons.IH [OF l] show ?case by simp
qed

lemma file_to_jsonl_InrD:
  assumes "file_to_jsonl count_tokens encode lang content mb mr mf = Inr (files, tag_dict)"
  obtains st where
    "pack_loop encode (system_message_of lang) (count_tokens (system_message_of lang)) mb mf
       initial_pack_state
       (text_chunks_of count_tokens encode (system_message_of lang)
          (fst (extract_html_tags content)) mr) = Inr st"
    "files = (if current_batch_requests st \<noteq> [] then write_batch st else written st)"
  using assms
  by (auto simp: file_to_jsonl_def Let_def split: prod.splits sum.splits)

lemma final_files_requests:
  "concat (map snd (if current_batch_requests st \<noteq> [] then write_batch st else written st))
     = all_requests st"
  by (simp add: all_requests_def write_batch_def)

text \<open>
  C9: when \<open>file_to_jsonl\<close> returns, the \<open>custom_id\<close> values of the requests of all
  batch files, read file after file in the order written, are \<open>request-1\<close>,
  \<open>request-2\<close>, \<open>request-3\<close>, and so on without gap or repeat, however the requests
  are distributed over the files.
\<close>

theorem custom_ids_sequential:
  assumes "file_to_jsonl count_tokens encode lang content mb mr mf = Inr (files, tag_dict)"
  shows "map custom_id (concat (map snd files))
           = map (\<lambda>i. ''request-'' @ str_of_nat i) [1..<Suc (length (concat (map snd files)))]"
proof -
  from assms obtain st where
    l: "pack_loop encode (system_message_of lang) (count_tokens (system_message_of lang)) mb mf
       initial_pack_state
       (text_chunks_of count_tokens encode (system_message_of lang)
          (fst (extract_html_tags content)) mr) = Inr st"
    and f: "files = (if current_batch_requests st \<noteq> [] then write_batch st else written st)"
    by (rule file_to_jsonl_InrD)
  have "ids_inv initial_pack_state"
    by (simp add: ids_inv_def initial_pack_state_def all_requests_def)
  with pack_loop_ids [OF l] have inv: "ids_inv st" by simp
  have all: "concat (map snd files) = all_requests st"
    unfolding f by (rule final_files_requests)
  from inv have m: "map custom_id (all_requests st) = map request_name [1..<global_request_id st]"
    and g: "1 \<le> global_request_id st"
    by (simp_all add: ids_inv_def)
  from m have "length (map custom_id (all_requests st))
                 = length (map request_name [1..<global_request_id st])" by (rule arg_cong)
  with g have "Suc (length (all_requests st)) = global_request_id st" by simp
  with m all show ?thesis by (simp add: request_name_def [abs_def])
qed

theorem custom_ids_sequential_witness:
  "\<not> isl (file_to_jsonl length (map of_char) ''French'' (''Hello <b>world</b>'' @ [CHR 0x0A])
             2000 20 2)
   \<and> map custom_id (concat (map snd (fst (projr
         (file_to_jsonl length (map of_char) ''French'' (''Hello <b>world</b>'' @ [CHR 0x0A])
            2000 20 2)))))
       = map (\<lambda>i. ''request-'' @ str_of_nat i) [1..<Suc (length (concat (map snd (fst (projr
         (file_to_jsonl length (map of_char) ''French'' (''Hello <b>world</b>'' @ [CHR 0x0A])
            2000 20 2))))))]"
proof -
  let ?run = "file_to_jsonl length (map of_char) ''French''
                (''Hello <b>world</b>'' @ [CHR 0x0A]) 2000 20 2"
  have ok: "\<not> isl ?run" by code_simp
  then have "?run = Inr (fst (projr ?run), snd (projr ?run))" by (cases ?run) auto
  from custom_ids_sequential [OF this] ok show ?thesis by blast
qed

text \<open>
  C10 (as amended): when \<open>file_to_jsonl\<close> returns, every batch file written holds at most
  \<open>max 1 max_requests_per_file\<close> requests, and its cumulative token cost (with the overhead
  of 100 per request) is at most \<open>max_tokens_per_batch\<close> unless the file holds at most one
  request; the files together, the final partial one included, hold one request per chunk,
  in order.
\<close>

theorem batch_files_budget:
  assumes "file_to_jsonl count_tokens encode lang content mb mr mf = Inr (files, tag_dict)"
  shows "(\<forall>f\<in>set files.
            int (length (snd f)) \<le> max 1 mf
            \<and> (int (sum_list (map (request_cost count_tokens encode) (snd f))) \<le> mb
                 \<or> length (snd f) \<le> 1))
         \<and> map user_content (concat (map snd files))
             = text_chunks_of count_tokens encode (system_message_of lang)
                 (fst (extract_html_tags content)) mr"
proof -
  from assms obtain st where
    l: "pack_loop encode (system_message_of lang) (count_tokens (system_message_of lang)) mb mf
       initial_pack_state
       (text_chunks_of count_tokens encode (system_message_of lang)
          (fst (extract_html_tags content)) mr) = Inr st"
    and f: "files = (if current_batch_requests st \<noteq> [] then write_batch st else written st)"
    by (rule file_to_jsonl_InrD)
  have "budget_inv count_tokens encode mb mf initial_pack_state"
    by (simp add: budget_inv_def initial_pack_state_def file_ok_def)
  with pack_loop_budget [where count_tokens = count_tokens, OF l] have inv: "budget_inv count_tokens encode mb mf st" by simp
  then have "\<forall>f\<in>set files. file_ok count_tokens encode mb mf (snd f)"
    unfolding f by (auto simp: budget_inv_def write_batch_def)
  then have 1: "\<forall>f\<in>set files.
            int (length (snd f)) \<le> max 1 mf
            \<and> (int (sum_list (map (request_cost count_tokens encode) (snd f))) \<le> mb
                 \<or> length (snd f) \<le> 1)"
    by (simp add: file_ok_def)
  have "ids_inv initial_pack_state"
    by (simp add: ids_inv_def initial_pack_state_def all_requests_def)
  with pack_loop_ids [OF l]
  have "map user_content (all_requests st)
          = map user_content (all_requests initial_pack_state)
            @ text_chunks_of count_tokens encode (system_message_of lang)
                (fst (extract_html_tags content)) mr" by simp
  then have 2: "map user_content (concat (map snd files))
             = text_chunks_of count_tokens encode (system_message_of lang)
                 (fst (extract_html_tags content)) mr"
    unfolding f final_files_requests by (simp add: all_requests_def initial_pack_state_def)
  from 1 2 show ?thesis ..
qed

theorem batch_files_budget_witness:
  "\<not> isl (file_to_jsonl length (map of_char) ''French'' (''Hello <b>world</b>'' @ [CHR 0x0A])
             2000 20 2)
   \<and> list_all (\<lambda>f. int (length (snd f)) \<le> max 1 2
                   \<and> (int (sum_list (map (request_cost length (map of_char)) (snd f))) \<le> 2000
                        \<or> length (snd f) \<le> 1))
        (fst (projr (file_to_jsonl length (map of_char) ''French''
                       (''Hello <b>world</b>'' @ [CHR 0x0A]) 2000 20 2)))"
proof -
  let ?run = "file_to_jsonl length (map of_char) ''French''
                (''Hello <b>world</b>'' @ [CHR 0x0A]) 2000 20 2"
  have ok: "\<not> isl ?run" by code_simp
  then have "?run = Inr (fst (projr ?run), snd (projr ?run))" by (cases ?run) auto
  from batch_files_budget [OF this] ok show ?thesis by (simp add: list_all_iff)
qed

text \<open>
  C10 as stated fails: with one token per character, a budget of 800 and a text of 120
  letters over a per-request limit of 100, the second file holds one request of cost 865.
\<close>

theorem batch_files_budget_counterexample:
  "\<not> isl (file_to_jsonl length (map of_char) ''French'' (replicate 120 (CHR ''a'')) 800 100 500)
   \<and> map (\<lambda>f. (length (snd f), sum_list (map (request_cost length (map of_char)) (snd f))))
        (fst (projr (file_to_jsonl length (map of_char) ''French'' (replicate 120 (CHR ''a''))
                       800 100 500)))
       = [(1, 745), (1, 865)]
   \<and> \<not> (865 :: int) \<le> 800"
  by code_simp

text \<open>
  C8: an input whose masked text does not exceed the per-request limit takes the \<open>else\<close>
  branch, where the only chunk is a list of token ids; encoding it raises \<open>TypeError\<close>
  before any request is built, so no request carries the masked text.
\<close>

theorem short_input_type_error:
  assumes "int (count_tokens (fst (extract_html_tags content))) \<le> mr"
  shows "file_to_jsonl count_tokens encode lang content mb mr mf = Inl TypeError"
  using assms
  by (auto simp: file_to_jsonl_def text_chunks_of_def pack_step_def tokenizer_encode_def
      Let_def split: prod.splits)

theorem short_input_type_error_witness:
  "int (length (fst (extract_html_tags ''Hello''))) \<le> 950
   \<and> file_to_jsonl length (map of_char) ''French'' ''Hello'' 89900 950 500 = Inl TypeError"
proof -
  have h: "int (length (fst (extract_html_tags ''Hello''))) \<le> 950" by code_simp
  from short_input_type_error [where count_tokens = length, OF h] h show ?thesis by blast
qed

section \<open>JobOrchestrator: failure classification, drain barrier and admission\<close>

subsection \<open>A failed job\<close>

text \<open>
  The first error message is read as a string exactly when \<open>errors\<close> is absent or an
  object, and the first entry of its data, if there is one, is an object whose message is
  a string or absent.
\<close>

lemma first_error_message_string:
  "(\<exists>m. first_error_message bs = Inr (Some m))
     = (case job_errors bs of
          ErrorsAbsent \<Rightarrow> True
        | ErrorsNotObject \<Rightarrow> False
        | ErrorsObject [] \<Rightarrow> True
        | ErrorsObject (EntryObject MessageNull # _) \<Rightarrow> False
        | ErrorsObject (EntryObject _ # _) \<Rightarrow> True
        | ErrorsObject (EntryNotObject # _) \<Rightarrow> False)"
  by (auto simp: first_error_message_def
      split: errors_field.splits list.splits error_entry.splits json_message.splits)

text \<open>
  On any other error payload the branch raises before \<open>batch_ids.remove\<close>: the failed job
  stays in the active list and nothing is queued.
\<close>

lemma failed_job_unreadable_errors:
  assumes "status_reply r (clock st) batch_id = Some bs" "job_status bs = ''failed''"
    "\<not> (\<exists>m. first_error_message bs = Inr (Some m))"
  shows "\<exists>e st'. poll_one r st batch_id = Inl (e, st')
           \<and> (e = AttributeError \<or> e = TypeError)
           \<and> batch_ids st' = batch_ids st \<and> retry_batches st' = retry_batches st"
proof (cases "first_error_message bs")
  case (Inl e)
  then have "e = AttributeError"
    by (auto simp: first_error_message_def
        split: errors_field.splits list.splits error_entry.splits json_message.splits)
  with Inl assms(1,2) show ?thesis by (simp add: poll_one_def Let_def)
next
  case (Inr m)
  with assms(3) have "m = None" by (cases m) auto
  with Inr assms(1,2) show ?thesis
    by (simp add: poll_one_def Let_def token_limit_reached_def)
qed

text \<open>
  C4 (as amended): for every job of the active list whose status is reported as failed and
  whose first error message is read as a string (the default text when there is none),
  the job is removed from the active list; its input file id is appended to the retry
  queue exactly when that first message contains \<open>Enqueued token limit reached\<close> and the
  status carries a non-empty input file id; otherwise the retry queue is left as it is.
\<close>

theorem failed_job_classification:
  assumes "status_reply r (clock st) batch_id = Some bs" "job_status bs = ''failed''"
    "first_error_message bs = Inr (Some error_message)"
    "batch_id \<in> set (batch_ids st)"
  shows "\<exists>st'. poll_one r st batch_id = Inr st'
           \<and> batch_ids st' = remove1 batch_id (batch_ids st)
           \<and> retry_batches st'
               = (if str_contains ''Enqueued token limit reached'' error_message
                     \<and> truthy (job_input_file_id bs)
                  then retry_batches st @ [the (job_input_file_id bs)]
                  else retry_batches st)"
  using assms
  by (simp add: poll_one_def remove_batch_def list_remove_def token_limit_reached_def Let_def)

definition one_failed_job :: orch where
  "one_failed_job = \<lparr>batch_ids = [''batch_1''], retry_batches = [], clock = 6, trace = []\<rparr>"

theorem failed_job_classification_witness:
  "status_reply quota_service (clock one_failed_job) ''batch_1''
     = Some \<lparr>job_status = ''failed'', job_output_file_id = None,
             job_input_file_id = Some ''file_1'',
             job_errors = ErrorsObject
               [EntryObject (MessageString ''Enqueued token limit reached for gpt-4o'')]\<rparr>
   \<and> ''batch_1'' \<in> set (batch_ids one_failed_job)
   \<and> (\<exists>st'. poll_one quota_service one_failed_job ''batch_1'' = Inr st'
          \<and> batch_ids st' = [] \<and> retry_batches st' = [''file_1''])"
proof -
  let ?bs = "\<lparr>job_status = ''failed'', job_output_file_id = None,
             job_input_file_id = Some ''file_1'',
             job_errors = ErrorsObject
               [EntryObject (MessageString ''Enqueued token limit reached for gpt-4o'')]\<rparr>"
  have 1: "status_reply quota_service (clock one_failed_job) ''batch_1'' = Some ?bs"
    by (simp add: quota_service_def)
  have 2: "job_status ?bs = ''failed''" by simp
  have 3: "first_error_message ?bs = Inr (Some ''Enqueued token limit reached for gpt-4o'')"
    by (simp add: first_error_message_def)
  have 4: "''batch_1'' \<in> set (batch_ids one_failed_job)" by (simp add: one_failed_job_def)
  have 5: "str_contains ''Enqueued token limit reached''
             ''Enqueued token limit reached for gpt-4o''"
    by simp
  from failed_job_classification [OF 1 2 3 4] 5 obtain st' where
    "poll_one quota_service one_failed_job ''batch_1'' = Inr st'"
    "batch_ids st' = remove1 ''batch_1'' (batch_ids one_failed_job)"
    "retry_batches st' = retry_batches one_failed_job @ [''file_1'']"
    by (auto simp: truthy_def)
  then have "\<exists>st'. poll_one quota_service one_failed_job ''batch_1'' = Inr st'
          \<and> batch_ids st' = [] \<and> retry_batches st' = [''file_1'']"
    by (simp add: one_failed_job_def)
  with 1 4 show ?thesis by blast
qed

text \<open>
  C4 as stated fails: a failed job whose second error message reports the exhausted quota
  is removed and nothing is queued for it.
\<close>

definition second_message_service :: remote where
  "second_message_service =
     \<lparr>status_reply = (\<lambda>t b.
        Some \<lparr>job_status = ''failed'', job_output_file_id = None,
              job_input_file_id = Some ''file_1'',
              job_errors = ErrorsObject
                [EntryObject (MessageString ''Invalid request''),
                 EntryObject (MessageString ''Enqueued token limit reached'')]\<rparr>),
      listing_reply = (\<lambda>t. ListData []),
      create_reply = (\<lambda>t f. None)\<rparr>"

theorem failed_job_classification_counterexample:
  "map_option job_errors (status_reply second_message_service 6 ''batch_1'')
     = Some (ErrorsObject [EntryObject (MessageString ''Invalid request''),
                           EntryObject (MessageString ''Enqueued token limit reached'')])
   \<and> str_contains ''Enqueued token limit reached'' ''Enqueued token limit reached''
   \<and> poll_one second_message_service one_failed_job ''batch_1''
       = Inr \<lparr>batch_ids = [], retry_batches = [], clock = 7, trace = [Polled ''batch_1'']\<rparr>"
  by code_simp

subsection \<open>The retry queue is drained only behind a listing that showed no active job\<close>

text \<open>
  The barrier is open behind a listing that reported no job in validating, in_progress,
  finalizing or cancelling, and also behind a listing call that failed or returned no
  data, which \<open>manage_batches\<close> turns into the empty list.
\<close>

definition barrier_open :: "listing \<Rightarrow> bool" where
  "barrier_open reply =
     (case reply of
        ListData d \<Rightarrow> filter (\<lambda>b. is_active (snd b)) d = []
      | ListFailed \<Rightarrow> True
      | ListNoData \<Rightarrow> True)"

text \<open>
  \<open>scan_trace b es\<close> reads a log of remote calls; \<open>b\<close> tells whether the call before was a
  listing behind which the barrier is open, or a job creation that followed such a
  listing. The result is \<open>None\<close> when a job is created in any other position.
\<close>

fun scan_trace :: "bool \<Rightarrow> event list \<Rightarrow> bool option" where
  "scan_trace b [] = Some b"
| "scan_trace b (Listed reply # es) = scan_trace (barrier_open reply) es"
| "scan_trace b (Created f res # es) = (if b then scan_trace b es else None)"
| "scan_trace b (Polled x # es) = scan_trace False es"
| "scan_trace b (Downloaded x y # es) = scan_trace False es"

definition drain_guarded :: "event list \<Rightarrow> bool" where
  "drain_guarded es = (scan_trace False es \<noteq> None)"

definition safe_events :: "event list \<Rightarrow> bool" where
  "safe_events es = (\<forall>b. scan_trace b es \<noteq> None)"

definition create_events :: "event list \<Rightarrow> bool" where
  "create_events es = (scan_trace True es = Some True)"

lemma count_active_zero: "(count_active r t = 0) = barrier_open (listing_reply r t)"
  by (simp add: count_active_def manage_batches_def barrier_open_def split: listing.splits)

lemma scan_trace_append:
  "scan_trace b (es @ fs) = (case scan_trace b es of None \<Rightarrow> None | Some b' \<Rightarrow> scan_trace b' fs)"
  by (induction b es rule: scan_trace.induct) auto

lemma safe_events_append: "safe_events es \<Longrightarrow> safe_events fs \<Longrightarrow> safe_events (es @ fs)"
  by (auto simp: safe_events_def scan_trace_append split: option.splits)

lemma safe_events_Nil: "safe_events []"
  by (simp add: safe_events_def)

lemma poll_one_trace:
  "\<exists>es. trace (final_state (poll_one r st batch_id)) = trace st @ es \<and> safe_events es"
proof -
  have 1: "safe_events [Polled batch_id]" by (simp add: safe_events_def)
  have 2: "safe_events [Polled batch_id, Downloaded batch_id f]" for f
    by (simp add: safe_events_def)
  have "trace (final_state (poll_one r st batch_id)) = trace st @ [Polled batch_id]
        \<or> (\<exists>f. trace (final_state (poll_one r st batch_id))
                  = trace st @ [Polled batch_id, Downloaded batch_id f])"
    by (auto simp: poll_one_def remove_batch_def final_state_def Let_def
        split: option.splits sum.splits)
  with 1 2 show ?thesis by blast
qed

lemma poll_all_trace:
  "\<exists>es. trace (final_state (poll_all r st snapshot)) = trace st @ es \<and> safe_events es"
proof (induction snapshot arbitrary: st)
  case Nil
  show ?case using safe_events_Nil by (simp add: final_state_def)
next
  case (Cons b rest)
  from poll_one_trace [of r st b] obtain es1 where
    t1: "trace (final_state (poll_one r st b)) = trace st @ es1" "safe_events es1" by blast
  show ?case
  proof (cases "poll_one r st b")
    case (Inl x)
    with t1 show ?thesis by auto
  next
    case (Inr st1)
    with t1 have s1: "trace st1 = trace st @ es1" by (simp add: final_state_def)
    from Cons.IH [of st1] obtain es where
      t: "trace (final_state (poll_all r st1 rest)) = trace st1 @ es" "safe_events es" by blast
    from Inr t s1 have "trace (final_state (poll_all r st (b # rest))) = trace st @ (es1 @ es)"
      by simp
    with t1(2) t(2) show ?thesis using safe_events_append by blast
  qed
qed

lemma drain_all_trace:
  "\<exists>es. trace (final_state (drain_all r st snapshot)) = trace st @ es \<and> create_events es"
proof (induction snapshot arbitrary: st)
  case Nil
  show ?case by (simp add: final_state_def create_events_def)
next
  case (Cons f rest)
  let ?res = "create_reply r (clock st) f"
  let ?st1 = "st\<lparr>clock := clock st + 1, trace := trace st @ [Created f ?res]\<rparr>"
  have step: "create_events es \<Longrightarrow> create_events (Created f ?res # es)" for es
    by (simp add: create_events_def)
  show ?case
  proof (cases "truthy ?res")
    case False
    from Cons.IH [of ?st1] obtain es where
      t: "trace (final_state (drain_all r ?st1 rest)) = trace ?st1 @ es" "create_events es"
      by blast
    from False t have "trace (final_state (drain_all r st (f # rest)))
                         = trace st @ (Created f ?res # es)" by (simp add: Let_def)
    with step [OF t(2)] show ?thesis by blast
  next
    case True
    show ?thesis
    proof (cases "list_remove f (retry_batches ?st1)")
      case (Inl e)
      with True have "trace (final_state (drain_all r st (f # rest)))
                        = trace st @ (Created f ?res # [])"
        by (simp add: Let_def final_state_def)
      with step [of "[]"] show ?thesis by (auto simp: create_events_def)
    next
      case (Inr rs)
      let ?st2 = "?st1\<lparr>batch_ids := batch_ids ?st1 @ [the ?res], retry_batches := rs\<rparr>"
      from Cons.IH [of ?st2] obtain es where
        t: "trace (final_state (drain_all r ?st2 rest)) = trace ?st2 @ es" "create_events es"
        by blast
      from True Inr t have "trace (final_state (drain_all r st (f # rest)))
                              = trace st @ (Created f ?res # es)" by (simp add: Let_def)
      with step [OF t(2)] show ?thesis by blast
    qed
  qed
qed

lemma retry_phase_trace:
  "\<exists>es. trace (final_state (retry_phase r st)) = trace st @ es \<and> safe_events es"
proof (cases "batch_ids st = [] \<and> retry_batches st \<noteq> []")
  case False
  then have "retry_phase r st = Inr st" by (auto simp: retry_phase_def)
  then show ?thesis using safe_events_Nil by (auto simp: final_state_def)
next
  case True
  let ?reply = "listing_reply r (clock st)"
  let ?st1 = "st\<lparr>clock := clock st + 1, trace := trace st @ [Listed ?reply]\<rparr>"
  show ?thesis
  proof (cases "count_active r (clock st) = 0")
    case n: False
    with True have "retry_phase r st = Inr ?st1" by (simp add: retry_phase_def Let_def)
    moreover have "safe_events [Listed ?reply]" by (simp add: safe_events_def)
    ultimately show ?thesis by (auto simp: final_state_def)
  next
    case n: True
    then have bo: "barrier_open ?reply" by (simp add: count_active_zero)
    from drain_all_trace [of r ?st1 "retry_batches ?st1"] obtain es where
      t: "trace (final_state (drain_all r ?st1 (retry_batches ?st1))) = trace ?st1 @ es"
      "create_events es" by blast
    from True n have "retry_phase r st = drain_all r ?st1 (retry_batches ?st1)"
      by (simp add: retry_phase_def Let_def)
    with t have "trace (final_state (retry_phase r st)) = trace st @ (Listed ?reply # es)"
      by simp
    moreover from t bo have "safe_events (Listed ?reply # es)"
      by (simp add: safe_events_def create_events_def)
    ultimately show ?thesis by blast
  qed
qed

lemma monitor_trace:
  "\<exists>es. trace (final_state (monitor_and_download_results fuel r st)) = trace st @ es
     \<and> safe_events es"
proof (induction fuel arbitrary: st)
  case 0
  show ?case using safe_events_Nil by (simp add: final_state_def)
next
  case (Suc fuel)
  show ?case
  proof (cases "batch_ids st \<noteq> [] \<or> retry_batches st \<noteq> []")
    case False
    then have "monitor_and_download_results (Suc fuel) r st = Inr st" by auto
    then show ?thesis using safe_events_Nil by (auto simp: final_state_def)
  next
    case True
    from poll_all_trace [of r st "batch_ids st"] obtain es1 where
      t1: "trace (final_state (poll_all r st (batch_ids st))) = trace st @ es1"
      "safe_events es1" by blast
    show ?thesis
    proof (cases "poll_all r st (batch_ids st)")
      case (Inl x)
      with True t1 show ?thesis by auto
    next
      case p: (Inr st1)
      with t1 have s1: "trace st1 = trace st @ es1" by (simp add: final_state_def)
      from retry_phase_trace [of r st1] obtain es2 where
        t2: "trace (final_state (retry_phase r st1)) = trace st1 @ es2" "safe_events es2"
        by blast
      show ?thesis
      proof (cases "retry_phase r st1")
        case (Inl x)
        with True p t2 s1 have
          "trace (final_state (monitor_and_download_results (Suc fuel) r st))
             = trace st @ (es1 @ es2)" by simp
        with t1(2) t2(2) show ?thesis using safe_events_append by blast
      next
        case q: (Inr st2)
        with t2 have s2: "trace st2 = trace st1 @ es2" by (simp add: final_state_def)
        from Suc.IH [of st2] obtain es where
          t: "trace (final_state (monitor_and_download_results fuel r st2)) = trace st2 @ es"
          "safe_events es" by blast
        from True p q t s1 s2 have
          "trace (final_state (monitor_and_download_results (Suc fuel) r st))
             = trace st @ (es1 @ es2 @ es)" by simp
        moreover have "safe_events (es1 @ es2 @ es)"
          using t1(2) t2(2) t(2) by (simp add: safe_events_append)
        ultimately show ?thesis by blast
      qed
    qed
  qed
qed

text \<open>
  C3 (as amended): for every remote service and every number of iterations, whether
  \<open>monitor_and_download_results\<close> goes on, ends or is left by an exception, every job
  creation for a queued input file id that it logs follows, with only other such creations
  in between, a listing query that reported no job in validating, in_progress, finalizing
  or cancelling, or that failed or returned no data; none follows a listing that reported
  such a job.
\<close>

theorem retry_drain_barrier:
  "\<exists>es. trace (final_state (monitor_and_download_results fuel r st)) = trace st @ es
     \<and> drain_guarded es"
proof -
  from monitor_trace [of fuel r st] obtain es where
    "trace (final_state (monitor_and_download_results fuel r st)) = trace st @ es"
    "safe_events es" by blast
  then show ?thesis by (auto simp: drain_guarded_def safe_events_def)
qed

definition three_failed_jobs :: orch where
  "three_failed_jobs =
     \<lparr>batch_ids = [''batch_1'', ''batch_3'', ''batch_5''], retry_batches = [], clock = 6,
      trace = []\<rparr>"

theorem retry_drain_barrier_witness:
  "trace (final_state (monitor_and_download_results 2 quota_service three_failed_jobs))
     = [Polled ''batch_1'', Polled ''batch_3'', Polled ''batch_5'',
        Listed (ListData [(''batch_1'', ''failed''), (''batch_3'', ''failed''),
                          (''batch_5'', ''failed'')]),
        Created ''file_1'' (Some ''batch_10''), Created ''file_3'' (Some ''batch_11''),
        Created ''file_5'' (Some ''batch_12''),
        Polled ''batch_10'', Polled ''batch_11'', Polled ''batch_12'']
   \<and> drain_guarded
        (trace (final_state (monitor_and_download_results 2 quota_service three_failed_jobs)))"
proof -
  have 1: "trace three_failed_jobs = []" by (simp add: three_failed_jobs_def)
  have 2: "trace (final_state (monitor_and_download_results 2 quota_service three_failed_jobs))
     = [Polled ''batch_1'', Polled ''batch_3'', Polled ''batch_5'',
        Listed (ListData [(''batch_1'', ''failed''), (''batch_3'', ''failed''),
                          (''batch_5'', ''failed'')]),
        Created ''file_1'' (Some ''batch_10''), Created ''file_3'' (Some ''batch_11''),
        Created ''file_5'' (Some ''batch_12''),
        Polled ''batch_10'', Polled ''batch_11'', Polled ''batch_12'']"
    by code_simp
  from retry_drain_barrier [of 2 quota_service three_failed_jobs] 1
  have "drain_guarded
          (trace (final_state (monitor_and_download_results 2 quota_service three_failed_jobs)))"
    by auto
  with 2 show ?thesis by blast
qed

text \<open>
  C3 as stated fails: on a service whose listing call fails while the job \<open>batch_9\<close> is
  in progress, the loop counts no active job and creates a job for the queued
  \<open>file_1\<close>, although no listing reported a count of zero.
\<close>

definition failed_listing_service :: remote where
  "failed_listing_service =
     \<lparr>status_reply = (\<lambda>t b.
        if b = ''batch_1''
        then Some \<lparr>job_status = ''failed'', job_output_file_id = None,
                   job_input_file_id = Some ''file_1'',
                   job_errors = ErrorsObject
                     [EntryObject (MessageString ''Enqueued token limit reached'')]\<rparr>
        else Some \<lparr>job_status = ''in_progress'', job_output_file_id = None,
                   job_input_file_id = None, job_errors = ErrorsAbsent\<rparr>),
      listing_reply = (\<lambda>t. ListFailed),
      create_reply = (\<lambda>t f. Some (''batch_'' @ str_of_nat t))\<rparr>"

theorem retry_drain_barrier_counterexample:
  "map_option job_status (status_reply failed_listing_service 7 ''batch_9'') = Some ''in_progress''
   \<and> listing_reply failed_listing_service 7 = ListFailed
   \<and> trace (final_state (monitor_and_download_results 1 failed_listing_service one_failed_job))
       = [Polled ''batch_1'', Listed ListFailed, Created ''file_1'' (Some ''batch_8'')]"
  by code_simp

subsection \<open>The limit of two active jobs\<close>

text \<open>
  C2: the drain of the retry queue creates one job per queued input file id without
  looking at the limit of 2. On \<open>quota_service\<close> three jobs created one at a time fail
  for lack of quota; behind the barrier the loop creates three new jobs at once, and all
  three are in validation together.
\<close>

theorem retry_drain_exceeds_limit:
  "(case monitor_and_download_results 1 quota_service
           (create_all_batches 3 quota_service [''file_1'', ''file_3'', ''file_5''] initial_orch) of
      Inl e \<Rightarrow> False
    | Inr st \<Rightarrow>
        batch_ids st = [''batch_10'', ''batch_11'', ''batch_12'']
        \<and> map (\<lambda>b. map_option job_status (status_reply quota_service (clock st) b)) (batch_ids st)
            = [Some ''validating'', Some ''validating'', Some ''validating'']
        \<and> count_active quota_service (clock st) = 3)"
  by code_simp

end
